theory Spec2Isabelle
  imports Main "HOL-Library.Sublist" "HOL-Library.List_Lexorder" "HOL-Library.Product_Lexorder"
    "HOL-Library.Option_ord"
begin

section \<open>Strings and the Python runtime\<close>

text \<open>
  The tracker is a Python 3 script. A Python \<^verbatim>\<open>str\<close> is a sequence of Unicode code
  points, so a string is modelled as a list of code points (natural numbers); its length
  and its comparison (\<^verbatim>\<open><\<close> on \<^verbatim>\<open>str\<close> is lexicographic by code point, which is the order
  of \<^theory_text>\<open>List_Lexorder\<close>) are then the ones Python computes. Tuples compare
  lexicographically (\<^theory_text>\<open>Product_Lexorder\<close>), integers are unbounded.
\<close>

type_synonym pystr = "nat list"

definition lit :: "string \<Rightarrow> pystr" where
  "lit s = map of_char s"

text \<open>
  What the script takes from the Python runtime and not from its own text is a parameter
  of the model: the Unicode character database behind \<^verbatim>\<open>\d\<close>, \<^verbatim>\<open>\s\<close>, \<^verbatim>\<open>\b\<close>,
  \<^verbatim>\<open>str.isdigit\<close>, \<^verbatim>\<open>str.strip\<close> and \<^verbatim>\<open>str.lower\<close>, the parser \<^verbatim>\<open>int(s)\<close> of a string, and
  the two \<^verbatim>\<open>datetime\<close> conversions and \<^verbatim>\<open>time.sleep\<close>. A conversion that raises is
  \<open>None\<close> there.
  Every general theorem below holds for every runtime, CPython's among them.

  A parsed \<^verbatim>\<open>datetime\<close> is offset-aware or naive. Two aware values compare by their
  instant, two naive ones by their wall-clock reading (both counted in microseconds
  here); comparing an aware with a naive one raises \<^verbatim>\<open>TypeError\<close>.
\<close>

datatype pydatetime = Naive int | Aware int

datatype error =
    RequestException
  | HTTPError int
  | ValueError
  | JSONDecodeError
  | RuntimeError
  | TypeError
  | IndexError
  | OverflowError

record runtime =
  isdecimal :: "nat \<Rightarrow> nat option"
  isdigit :: "nat \<Rightarrow> bool"
  isalnum :: "nat \<Rightarrow> bool"
  isspace :: "nat \<Rightarrow> bool"
  str_lower :: "pystr \<Rightarrow> pystr"
  int_of_str :: "pystr \<Rightarrow> int option"
  fromisoformat :: "pystr \<Rightarrow> pydatetime option"
  utc_isoformat :: "int \<Rightarrow> pystr option"
  sleep_raises :: "int \<Rightarrow> error option"

text \<open>
  \<open>isdecimal R c\<close> is the digit value of a character of category Nd (the characters
  \<^verbatim>\<open>\d\<close> matches and \<^verbatim>\<open>int\<close> reads); \<open>isdigit\<close>, \<open>isalnum\<close> and \<open>isspace\<close> are the
  \<^verbatim>\<open>str\<close> predicates of the same names on one character; \<open>utc_isoformat R t\<close> is
  \<^verbatim>\<open>datetime.fromtimestamp(t, tz=timezone.utc).isoformat()\<close>; \<open>sleep_raises R w\<close> is
  the exception \<^verbatim>\<open>time.sleep(w)\<close> raises for the integer \<open>w\<close>, \<open>None\<close> when the call
  returns.
\<close>

subsection \<open>Membership and formatting\<close>

text \<open>
  \<^verbatim>\<open>needle in hay\<close> on strings: some suffix of \<open>hay\<close> starts with \<open>needle\<close>.
\<close>

fun py_in :: "pystr \<Rightarrow> pystr \<Rightarrow> bool" where
  "py_in needle [] = (needle = [])"
| "py_in needle (c # cs) = (prefix needle (c # cs) \<or> py_in needle cs)"

text \<open>
  \<^verbatim>\<open>str(n)\<close> and the format \<^verbatim>\<open>{n:02d}\<close> of a non-negative integer: its decimal digits,
  and the same padded on the left with \<^verbatim>\<open>0\<close> to at least two characters.
\<close>

fun str_nat :: "nat \<Rightarrow> pystr" where
  "str_nat n = (if n < 10 then [48 + n] else str_nat (n div 10) @ [48 + n mod 10])"

definition format_02d :: "nat \<Rightarrow> pystr" where
  "format_02d n = (let s = str_nat n in replicate (2 - length s) 48 @ s)"

text \<open>
  \<^verbatim>\<open>int(g)\<close> for a string \<open>g\<close> of characters matched by \<^verbatim>\<open>\d\<close>: the decimal number
  its digit values spell (no sign, no surrounding space; the result is not negative).
\<close>

definition digit_value :: "runtime \<Rightarrow> nat \<Rightarrow> nat" where
  "digit_value R c = (case isdecimal R c of Some d \<Rightarrow> d | None \<Rightarrow> 0)"

definition int_digits :: "runtime \<Rightarrow> pystr \<Rightarrow> nat" where
  "int_digits R g = foldl (\<lambda>a c. 10 * a + digit_value R c) 0 g"

section \<open>Episode parsing\<close>

subsection \<open>The regular expressions\<close>

text \<open>
  The two patterns of \<^verbatim>\<open>EP_PATTERNS\<close> are sequences of three kinds of node: the word
  boundary \<^verbatim>\<open>\b\<close>, a greedy repetition \<^verbatim>\<open>C{lo,hi}\<close> of a character class (\<^verbatim>\<open>C*\<close> is
  \<open>Rep C 0 None\<close>, a single \<^verbatim>\<open>C\<close> is \<open>Rep C 1 (Some 1)\<close>), and the same inside a capturing
  group. The classes are \<^verbatim>\<open>\d\<close>, \<^verbatim>\<open>\s\<close> and a bracketed set of characters. The patterns are
  compiled without flags, so the classes are the Unicode ones.
\<close>

datatype cclass = Digit | Space | OneOf pystr

datatype node = Bnd | Rep cclass nat "nat option" | Grp cclass nat "nat option"

fun in_class :: "runtime \<Rightarrow> cclass \<Rightarrow> nat \<Rightarrow> bool" where
  "in_class R Digit c = (isdecimal R c \<noteq> None)"
| "in_class R Space c = isspace R c"
| "in_class R (OneOf cs) c = (c \<in> set cs)"

text \<open>
  \<^verbatim>\<open>\w\<close> is an alphanumeric character or the underscore. \<^verbatim>\<open>\b\<close> holds at a position
  when exactly one of the character before it and the character at it is a word
  character; the start and the end of the string count as non-word.
\<close>

definition is_word :: "runtime \<Rightarrow> nat option \<Rightarrow> bool" where
  "is_word R x = (case x of None \<Rightarrow> False | Some c \<Rightarrow> isalnum R c \<or> c = 95)"

definition first_char :: "pystr \<Rightarrow> nat option" where
  "first_char s = (case s of [] \<Rightarrow> None | c # _ \<Rightarrow> Some c)"

definition at_boundary :: "runtime \<Rightarrow> nat option \<Rightarrow> pystr \<Rightarrow> bool" where
  "at_boundary R prev s = (is_word R prev \<noteq> is_word R (first_char s))"

text \<open>
  The matcher backtracks as \<^verbatim>\<open>re\<close> does. A position is the character before it
  (\<open>prev\<close>, if any) and the rest of the string. A greedy repetition first takes as many
  characters as it may and gives them back one at a time while the rest of the pattern
  fails: \<open>counts\<close> lists the numbers of characters it tries, in that order. The result of
  a match is the list of its captured groups.
\<close>

fun first_some :: "('a \<Rightarrow> 'b option) \<Rightarrow> 'a list \<Rightarrow> 'b option" where
  "first_some f [] = None"
| "first_some f (x # xs) = (case f x of Some y \<Rightarrow> Some y | None \<Rightarrow> first_some f xs)"

definition counts :: "runtime \<Rightarrow> cclass \<Rightarrow> nat \<Rightarrow> nat option \<Rightarrow> pystr \<Rightarrow> nat list" where
  "counts R c lo hi s =
     (let n = length (takeWhile (in_class R c) s);
          m = (case hi of None \<Rightarrow> n | Some h \<Rightarrow> min h n)
      in rev [lo ..< Suc m])"

definition char_before :: "nat option \<Rightarrow> pystr \<Rightarrow> nat \<Rightarrow> nat option" where
  "char_before prev s k = (if k = 0 then prev else first_char (drop (k - 1) s))"

fun match_here :: "runtime \<Rightarrow> node list \<Rightarrow> nat option \<Rightarrow> pystr \<Rightarrow> pystr list option" where
  "match_here R [] prev s = Some []"
| "match_here R (Bnd # ns) prev s =
     (if at_boundary R prev s then match_here R ns prev s else None)"
| "match_here R (Rep c lo hi # ns) prev s =
     first_some (\<lambda>k. match_here R ns (char_before prev s k) (drop k s)) (counts R c lo hi s)"
| "match_here R (Grp c lo hi # ns) prev s =
     first_some
       (\<lambda>k. map_option (Cons (take k s)) (match_here R ns (char_before prev s k) (drop k s)))
       (counts R c lo hi s)"

text \<open>
  \<^verbatim>\<open>pat.search(title)\<close> tries the start positions from left to right and returns the
  first match; the position after the last character is tried too.
\<close>

fun search_from :: "runtime \<Rightarrow> node list \<Rightarrow> nat option \<Rightarrow> pystr \<Rightarrow> pystr list option" where
  "search_from R pat prev [] = match_here R pat prev []"
| "search_from R pat prev (c # s) =
     (case match_here R pat prev (c # s) of
        Some gs \<Rightarrow> Some gs
      | None \<Rightarrow> search_from R pat (Some c) s)"

definition re_search :: "runtime \<Rightarrow> node list \<Rightarrow> pystr \<Rightarrow> pystr list option" where
  "re_search R pat title = search_from R pat None title"

text \<open>
  \<^verbatim>\<open>\b(\d{1,2})\s*[xX]\s*(\d{1,2})\b\<close> and \<^verbatim>\<open>\b[Ss](\d{1,2})\s*[Ee](\d{1,2})\b\<close>, and the
  list of the two in the order of the source.
\<close>

definition pattern_x :: "node list" where
  "pattern_x =
     [Bnd, Grp Digit 1 (Some 2), Rep Space 0 None, Rep (OneOf (lit ''xX'')) 1 (Some 1),
      Rep Space 0 None, Grp Digit 1 (Some 2), Bnd]"

definition pattern_se :: "node list" where
  "pattern_se =
     [Bnd, Rep (OneOf (lit ''Ss'')) 1 (Some 1), Grp Digit 1 (Some 2), Rep Space 0 None,
      Rep (OneOf (lit ''Ee'')) 1 (Some 1), Grp Digit 1 (Some 2), Bnd]"

definition EP_PATTERNS :: "node list list" where
  "EP_PATTERNS = [pattern_x, pattern_se]"

text \<open>
  What it means for a pattern to match, stated without the search: \<open>occurs_at R pat prev
  s gs\<close> holds when the pattern matches at the position that has the character \<open>prev\<close>
  before it and the string \<open>s\<close> after it, and the groups capture \<open>gs\<close>. A repetition
  matches a string \<open>w\<close> of characters of its class whose length is within its bounds,
  and the rest of the pattern matches after \<open>w\<close>. A pattern occurs in a title when it
  matches at some position of it.
\<close>

definition within :: "nat option \<Rightarrow> nat \<Rightarrow> bool" where
  "within hi k = (case hi of None \<Rightarrow> True | Some h \<Rightarrow> k \<le> h)"

definition repeats :: "runtime \<Rightarrow> cclass \<Rightarrow> nat \<Rightarrow> nat option \<Rightarrow> pystr \<Rightarrow> bool" where
  "repeats R c lo hi w = (lo \<le> length w \<and> within hi (length w) \<and> (\<forall>x\<in>set w. in_class R c x))"

definition last_char :: "nat option \<Rightarrow> pystr \<Rightarrow> nat option" where
  "last_char prev w = (if w = [] then prev else Some (last w))"

fun occurs_at :: "runtime \<Rightarrow> node list \<Rightarrow> nat option \<Rightarrow> pystr \<Rightarrow> pystr list \<Rightarrow> bool" where
  "occurs_at R [] prev s gs = (gs = [])"
| "occurs_at R (Bnd # ns) prev s gs = (at_boundary R prev s \<and> occurs_at R ns prev s gs)"
| "occurs_at R (Rep c lo hi # ns) prev s gs =
     (\<exists>w rest. s = w @ rest \<and> repeats R c lo hi w \<and> occurs_at R ns (last_char prev w) rest gs)"
| "occurs_at R (Grp c lo hi # ns) prev s gs =
     (\<exists>w rest gs'. s = w @ rest \<and> repeats R c lo hi w \<and> gs = w # gs'
        \<and> occurs_at R ns (last_char prev w) rest gs')"

definition occurs :: "runtime \<Rightarrow> node list \<Rightarrow> pystr \<Rightarrow> pystr list \<Rightarrow> bool" where
  "occurs R pat s gs =
     (\<exists>pre post. s = pre @ post \<and> occurs_at R pat (last_char None pre) post gs)"

text \<open>
  For the statements about the two patterns: one or two decimal digits (what
  \<^verbatim>\<open>\d{1,2}\<close> matches) and a possibly empty run of white space (what \<^verbatim>\<open>\s*\<close> matches).
\<close>

definition digits :: "runtime \<Rightarrow> pystr \<Rightarrow> bool" where
  "digits R g = (1 \<le> length g \<and> length g \<le> 2 \<and> (\<forall>c\<in>set g. isdecimal R c \<noteq> None))"

definition spaces :: "runtime \<Rightarrow> pystr \<Rightarrow> bool" where
  "spaces R w = (\<forall>c\<in>set w. isspace R c)"

subsection \<open>\<^verbatim>\<open>extract_episode_code\<close> and \<^verbatim>\<open>is_official_trailer\<close>\<close>

text \<open>
  \<^verbatim>\<open>f"{season}x{ep:02d}"\<close> for the two integers read from the groups.
\<close>

definition episode_code_of :: "nat \<Rightarrow> nat \<Rightarrow> pystr" where
  "episode_code_of season ep = str_nat season @ lit ''x'' @ format_02d ep"

text \<open>
  The loop over the patterns returns at the first pattern that matches. \<^verbatim>\<open>m.group(2)\<close>
  needs two groups; both patterns have exactly two (lemma \<open>ep_patterns_two_groups\<close>
  below), so the middle branch is never taken for \<open>EP_PATTERNS\<close>.
\<close>

fun try_patterns :: "runtime \<Rightarrow> node list list \<Rightarrow> pystr \<Rightarrow> pystr option" where
  "try_patterns R [] title = None"
| "try_patterns R (pat # pats) title =
     (case re_search R pat title of
        Some (g1 # g2 # _) \<Rightarrow> Some (episode_code_of (int_digits R g1) (int_digits R g2))
      | Some _ \<Rightarrow> None
      | None \<Rightarrow> try_patterns R pats title)"

definition extract_episode_code :: "runtime \<Rightarrow> pystr \<Rightarrow> pystr option" where
  "extract_episode_code R title = try_patterns R EP_PATTERNS title"

definition is_official_trailer :: "runtime \<Rightarrow> pystr \<Rightarrow> bool" where
  "is_official_trailer R title =
     (let t = str_lower R title
      in py_in (lit ''trailer'') t \<and> py_in (lit ''official'') t \<and> py_in (lit ''heated rivalry'') t)"

text \<open>
  The two titles of the trailer examples; the first has U+2014 EM DASH between the
  name and the words that follow it.
\<close>

definition em_dash_title :: pystr where
  "em_dash_title = lit ''Heated Rivalry '' @ [8212] @ lit '' Official Trailer''"

definition plain_title :: pystr where
  "plain_title = lit ''Heated Rivalry Official Trailer''"

subsection \<open>A concrete runtime for evaluation\<close>

text \<open>
  For evaluating the model on concrete inputs: the tables of CPython 3.11 on the code
  points up to U+00FF, and \<open>isspace\<close> on all of Unicode. A code point above U+00FF is
  taken to be a caseless symbol, neither digit nor letter (as U+2014 EM DASH is, the one
  such code point used below). \<open>int_of_str\<close> reads a plain string of ASCII digits, as
  \<^verbatim>\<open>int\<close> does, and nothing else; \<open>fromisoformat\<close> and \<open>utc_isoformat\<close> are excerpts of the
  library functions at the three midnights 2024-01-01, -02 and -03 (UTC), and
  \<open>fromisoformat\<close> also knows the first of them written without an offset.
  \<^verbatim>\<open>time.sleep\<close> raises \<^verbatim>\<open>ValueError\<close> for a negative wait and \<^verbatim>\<open>OverflowError\<close> for a
  wait that does not fit the 64-bit count of nanoseconds it is converted to; for any
  other wait it is taken to return.
\<close>

definition latin1_lower :: "nat \<Rightarrow> nat" where
  "latin1_lower c =
     (if (65 \<le> c \<and> c \<le> 90) \<or> (192 \<le> c \<and> c \<le> 214) \<or> (216 \<le> c \<and> c \<le> 222)
      then c + 32 else c)"

fun ascii_int :: "pystr \<Rightarrow> int \<Rightarrow> int option" where
  "ascii_int [] a = Some a"
| "ascii_int (c # cs) a =
     (if 48 \<le> c \<and> c \<le> 57 then ascii_int cs (10 * a + int (c - 48)) else None)"

definition midnights :: "(pystr \<times> int) list" where
  "midnights =
     [(lit ''2024-01-01T00:00:00+00:00'', 1704067200),
      (lit ''2024-01-02T00:00:00+00:00'', 1704153600),
      (lit ''2024-01-03T00:00:00+00:00'', 1704240000)]"

definition cpython :: runtime where
  "cpython = \<lparr>
     isdecimal = (\<lambda>c. if 48 \<le> c \<and> c \<le> 57 then Some (c - 48) else None),
     isdigit = (\<lambda>c. (48 \<le> c \<and> c \<le> 57) \<or> c = 178 \<or> c = 179 \<or> c = 185),
     isalnum = (\<lambda>c. (48 \<le> c \<and> c \<le> 57) \<or> (65 \<le> c \<and> c \<le> 90) \<or> (97 \<le> c \<and> c \<le> 122)
        \<or> c = 170 \<or> c = 178 \<or> c = 179 \<or> c = 181 \<or> c = 185 \<or> c = 186
        \<or> (188 \<le> c \<and> c \<le> 190) \<or> (192 \<le> c \<and> c \<le> 214) \<or> (216 \<le> c \<and> c \<le> 246)
        \<or> (248 \<le> c \<and> c \<le> 255)),
     isspace = (\<lambda>c. (9 \<le> c \<and> c \<le> 13) \<or> (28 \<le> c \<and> c \<le> 32) \<or> c = 133 \<or> c = 160
        \<or> c = 5760 \<or> (8192 \<le> c \<and> c \<le> 8202) \<or> c = 8232 \<or> c = 8233 \<or> c = 8239
        \<or> c = 8287 \<or> c = 12288),
     str_lower = map latin1_lower,
     int_of_str = (\<lambda>s. if s = [] then None else ascii_int s 0),
     fromisoformat = (\<lambda>s. if s = lit ''2024-01-01T00:00:00'' then Some (Naive (1704067200 * 1000000))
        else map_option (\<lambda>t. Aware (t * 1000000)) (map_of midnights s)),
     utc_isoformat = (\<lambda>t. map_option fst (find (\<lambda>(s, u). u = t) midnights)),
     sleep_raises = (\<lambda>w. if w < 0 then Some ValueError
        else if 9223372036 < w then Some OverflowError else None)
   \<rparr>"

section \<open>Data model\<close>

text \<open>
  The dataclass \<^verbatim>\<open>Post\<close>. The field \<^verbatim>\<open>id\<close> is written \<open>id'\<close>.
\<close>

record Post =
  id' :: pystr
  name :: pystr
  created_utc :: int
  created_iso :: pystr
  title :: pystr
  permalink :: pystr
  url :: pystr
  author :: pystr
  score :: int
  num_comments :: int
  episode_code :: "pystr option"
  is_trailer :: bool

text \<open>
  The truth value of an \<^verbatim>\<open>Optional[str]\<close>: \<^verbatim>\<open>None\<close> and the empty string are false.
\<close>

definition truthy :: "pystr option \<Rightarrow> bool" where
  "truthy x = (case x of None \<Rightarrow> False | Some s \<Rightarrow> s \<noteq> [])"

definition or_else :: "pystr option \<Rightarrow> pystr \<Rightarrow> pystr" where
  "or_else x d = (case x of None \<Rightarrow> d | Some s \<Rightarrow> if s = [] then d else s)"

text \<open>
  The values \<^verbatim>\<open>safe_int\<close> is called on: nothing (\<^verbatim>\<open>None\<close>), an integer or a string.
  \<^verbatim>\<open>int(None)\<close> raises, and \<^verbatim>\<open>safe_int\<close> turns every exception into the default.
\<close>

datatype pyval = PNone | PInt int | PStr pystr

definition py_int :: "runtime \<Rightarrow> pyval \<Rightarrow> int option" where
  "py_int R x = (case x of PNone \<Rightarrow> None | PInt i \<Rightarrow> Some i | PStr s \<Rightarrow> int_of_str R s)"

definition safe_int :: "runtime \<Rightarrow> pyval \<Rightarrow> int \<Rightarrow> int" where
  "safe_int R x dflt = (case py_int R x of Some v \<Rightarrow> v | None \<Rightarrow> dflt)"

section \<open>HTTP helper\<close>

text \<open>
  A response as \<^verbatim>\<open>request_json\<close> reads it: the status code, the two headers it looks
  up, and the result of \<^verbatim>\<open>r.json()\<close> (\<open>None\<close> when it raises). A call of
  \<^verbatim>\<open>session.get\<close> returns a response or raises. The server is a function from the
  number of calls made before to the outcome of the next call; the state of a fetch is
  the number of calls made and the waits slept by \<^verbatim>\<open>time.sleep\<close>, in order.
\<close>

record 'b response =
  status_code :: int
  retry_after :: "pystr option"
  content_type :: "pystr option"
  json_body :: "'b option"

datatype 'b get_result = Raises | Response "'b response"

record io =
  gets :: nat
  sleeps :: "int list"

definition backoff :: "int \<Rightarrow> int" where
  "backoff attempt = min 60 (2 ^ nat attempt)"

text \<open>
  The wait after a 429:
  \<^verbatim>\<open>int(retry_after) if retry_after and retry_after.isdigit() else min(60, 2 ** attempt)\<close>.
  \<^verbatim>\<open>str.isdigit\<close> holds when the string is not empty and all its characters are digits;
  \<^verbatim>\<open>int\<close> raises \<^verbatim>\<open>ValueError\<close> on a string it cannot read.
\<close>

definition retry_wait :: "runtime \<Rightarrow> pystr option \<Rightarrow> int \<Rightarrow> error + int" where
  "retry_wait R ra attempt =
     (case ra of
        None \<Rightarrow> Inr (backoff attempt)
      | Some s \<Rightarrow>
          if s \<noteq> [] \<and> list_all (isdigit R) s
          then (case int_of_str R s of None \<Rightarrow> Inl ValueError | Some w \<Rightarrow> Inr w)
          else Inr (backoff attempt))"

text \<open>
  The loop \<^verbatim>\<open>for attempt in range(1, max_retries + 1)\<close>, over the list of attempt
  numbers still to run. \<^verbatim>\<open>raise_for_status\<close> raises for a status from 400 to 599;
  an exception of \<^verbatim>\<open>time.sleep\<close> ends the loop like any other.
\<close>

definition sleep :: "runtime \<Rightarrow> int \<Rightarrow> io \<Rightarrow> error + io" where
  "sleep R wait st =
     (case sleep_raises R wait of
        Some e \<Rightarrow> Inl e
      | None \<Rightarrow> Inr (st\<lparr>sleeps := sleeps st @ [wait]\<rparr>))"


fun attempts :: "runtime \<Rightarrow> (nat \<Rightarrow> 'b get_result) \<Rightarrow> int list \<Rightarrow> io \<Rightarrow> (error + 'b) \<times> io" where
  "attempts R server [] st = (Inl RuntimeError, st)"
| "attempts R server (attempt # rest) st =
     (let st1 = st\<lparr>gets := gets st + 1\<rparr> in
      case server (gets st) of
        Raises \<Rightarrow> (Inl RequestException, st1)
      | Response r \<Rightarrow>
          if status_code r = 429 then
            (case retry_wait R (retry_after r) attempt of
               Inl e \<Rightarrow> (Inl e, st1)
             | Inr wait \<Rightarrow>
                 (case sleep R wait st1 of
                    Inl e \<Rightarrow> (Inl e, st1)
                  | Inr st2 \<Rightarrow> attempts R server rest st2))
          else if 500 \<le> status_code r \<and> status_code r < 600 then
            (case sleep R (backoff attempt) st1 of
               Inl e \<Rightarrow> (Inl e, st1)
             | Inr st2 \<Rightarrow> attempts R server rest st2)
          else if 400 \<le> status_code r \<and> status_code r < 600 then
            (Inl (HTTPError (status_code r)), st1)
          else if \<not> py_in (lit ''json'') (str_lower R (or_else (content_type r) [])) then
            (Inl ValueError, st1)
          else
            (case json_body r of
               None \<Rightarrow> (Inl JSONDecodeError, st1)
             | Some body \<Rightarrow> (Inr body, st1)))"

definition request_json :: "runtime \<Rightarrow> (nat \<Rightarrow> 'b get_result) \<Rightarrow> int \<Rightarrow> (error + 'b) \<times> io" where
  "request_json R server max_retries = attempts R server [1 .. max_retries] \<lparr>gets = 0, sleeps = []\<rparr>"

text \<open>
  For the statements: a response after which the loop goes on to the next attempt.
\<close>

definition retriable :: "runtime \<Rightarrow> 'b get_result \<Rightarrow> int \<Rightarrow> bool" where
  "retriable R g attempt =
     (case g of
        Raises \<Rightarrow> False
      | Response r \<Rightarrow>
          (status_code r = 429
             \<and> (case retry_wait R (retry_after r) attempt of
                   Inl e \<Rightarrow> False
                 | Inr w \<Rightarrow> sleep_raises R w = None))
          \<or> (500 \<le> status_code r \<and> status_code r < 600
             \<and> sleep_raises R (backoff attempt) = None))"

section \<open>Reddit fetch\<close>

text \<open>
  The module's configuration (read from the environment when the module is loaded), and
  the request \<^verbatim>\<open>fetch_search_posts\<close> builds from it: the URL, the query parameters and
  the \<^verbatim>\<open>User-Agent\<close> header. The network maps a request to the server that answers it.
\<close>

record config =
  SUBREDDIT :: pystr
  QUERY :: pystr
  LIMIT :: int
  OTHER_POSTS_N :: int
  SORT :: pystr
  TIME_FILTER :: pystr
  USER_AGENT :: pystr

record request =
  req_url :: pystr
  req_user_agent :: pystr
  param_q :: pystr
  param_restrict_sr :: int
  param_sort :: pystr
  param_t :: pystr
  param_limit :: int
  param_raw_json :: int

definition SEARCH_URL :: "config \<Rightarrow> pystr" where
  "SEARCH_URL cfg = lit ''https://www.reddit.com/r/'' @ SUBREDDIT cfg @ lit ''/search.json''"

definition search_request :: "config \<Rightarrow> request" where
  "search_request cfg = \<lparr>
     req_url = SEARCH_URL cfg,
     req_user_agent = USER_AGENT cfg,
     param_q = QUERY cfg,
     param_restrict_sr = 1,
     param_sort = SORT cfg,
     param_t = TIME_FILTER cfg,
     param_limit = LIMIT cfg,
     param_raw_json = 1 \<rparr>"

text \<open>
  The \<^verbatim>\<open>data\<close> object of one search result, as \<^verbatim>\<open>d.get\<close> reads it: a text field is
  \<open>None\<close> when absent or null; a number field is absent, an integer or a string (JSON
  numbers with a fraction are left out of the model). The response body is taken as
  decoded to the list of these objects.
\<close>

record child =
  c_id :: "pystr option"
  c_name :: "pystr option"
  c_created_utc :: pyval
  c_title :: "pystr option"
  c_permalink :: "pystr option"
  c_url :: "pystr option"
  c_author :: "pystr option"
  c_score :: pyval
  c_num_comments :: pyval

text \<open>
  The body of the loop over the children: a child without an id is skipped;
  \<^verbatim>\<open>datetime.fromtimestamp\<close> raises for a timestamp out of its range.
\<close>

definition post_of_child :: "runtime \<Rightarrow> child \<Rightarrow> error + Post option" where
  "post_of_child R d =
     (case c_id d of
        None \<Rightarrow> Inr None
      | Some pid \<Rightarrow>
          if pid = [] then Inr None
          else
            let created = safe_int R (c_created_utc d) 0 in
            (case (if created \<noteq> 0 then utc_isoformat R created else Some []) of
              None \<Rightarrow> Inl OverflowError
            | Some isotime \<Rightarrow>
                (let ttl = or_else (c_title d) [];
                     ep = extract_episode_code R ttl;
                     trailer = is_official_trailer R ttl
                 in Inr (Some \<lparr>
                     id' = pid,
                     name = or_else (c_name d) (lit ''t3_'' @ pid),
                     created_utc = created,
                     created_iso = isotime,
                     title = ttl,
                     permalink = lit ''https://www.reddit.com'' @ or_else (c_permalink d) [],
                     url = or_else (c_url d) [],
                     author = or_else (c_author d) [],
                     score = safe_int R (c_score d) 0,
                     num_comments = safe_int R (c_num_comments d) 0,
                     episode_code = ep,
                     is_trailer = trailer \<rparr>))))"

fun posts_of_children :: "runtime \<Rightarrow> child list \<Rightarrow> error + Post list" where
  "posts_of_children R [] = Inr []"
| "posts_of_children R (d # ds) =
     (case post_of_child R d of
        Inl e \<Rightarrow> Inl e
      | Inr po \<Rightarrow>
          (case posts_of_children R ds of
             Inl e \<Rightarrow> Inl e
           | Inr ps \<Rightarrow> Inr (case po of None \<Rightarrow> ps | Some p \<Rightarrow> p # ps)))"

definition fetch_search_posts ::
  "config \<Rightarrow> runtime \<Rightarrow> (request \<Rightarrow> nat \<Rightarrow> child list get_result) \<Rightarrow> error + Post list" where
  "fetch_search_posts cfg R net =
     (case fst (request_json R (net (search_request cfg)) 5) of
        Inl e \<Rightarrow> Inl e
      | Inr children \<Rightarrow> posts_of_children R children)"

text \<open>
  For the examples: the default configuration, a search result that has only an id and
  a title, and a network whose server answers every call with a 200 JSON response: one
  result for the query \<^verbatim>\<open>Severance\<close>, two results for any other query.
\<close>

definition default_config :: config where
  "default_config = \<lparr>
     SUBREDDIT = lit ''television'', QUERY = lit ''Heated Rivalry'', LIMIT = 100,
     OTHER_POSTS_N = 5, SORT = lit ''new'', TIME_FILTER = lit ''all'',
     USER_AGENT = lit ''RewindOS-SubTracker/1.0 (personal project; respectful polling)'' \<rparr>"

definition example_child :: "string \<Rightarrow> pystr \<Rightarrow> child" where
  "example_child i ttl = \<lparr>
     c_id = Some (lit i), c_name = None, c_created_utc = PNone, c_title = Some ttl,
     c_permalink = None, c_url = None, c_author = None, c_score = PNone,
     c_num_comments = PNone \<rparr>"

definition example_net :: "request \<Rightarrow> nat \<Rightarrow> child list get_result" where
  "example_net req k =
     Response \<lparr>
       status_code = 200, retry_after = None,
       content_type = Some (lit ''application/json; charset=UTF-8''),
       json_body = Some (if param_q req = lit ''Severance''
                         then [example_child ''s1'' (lit ''Severance Official Trailer'')]
                         else [example_child ''h1'' plain_title,
                               example_child ''s1'' (lit ''Severance Official Trailer'')]) \<rparr>"

text \<open>
  The post \<^verbatim>\<open>fetch_search_posts\<close> builds from such a search result whose title holds no
  episode code.
\<close>

definition fetched_post :: "string \<Rightarrow> pystr \<Rightarrow> bool \<Rightarrow> Post" where
  "fetched_post i ttl tr = \<lparr>
     id' = lit i, name = lit ''t3_'' @ lit i, created_utc = 0, created_iso = [], title = ttl,
     permalink = lit ''https://www.reddit.com'', url = [], author = [], score = 0,
     num_comments = 0, episode_code = None, is_trailer = tr \<rparr>"

section \<open>Selection logic\<close>

text \<open>
  \<^verbatim>\<open>sorted\<close> and \<^verbatim>\<open>list.sort\<close> are stable. With \<^verbatim>\<open>reverse=True\<close> CPython reverses the
  list, sorts it stably in ascending order and reverses the result, so that elements
  with equal keys keep their original order.
\<close>

definition py_sorted :: "('a \<Rightarrow> 'k::linorder) \<Rightarrow> 'a list \<Rightarrow> 'a list" where
  "py_sorted key xs = sort_key key xs"

definition py_sorted_reverse :: "('a \<Rightarrow> 'k::linorder) \<Rightarrow> 'a list \<Rightarrow> 'a list" where
  "py_sorted_reverse key xs = rev (sort_key key (rev xs))"

text \<open>
  The slice \<^verbatim>\<open>xs[:n]\<close>: a negative \<open>n\<close> counts from the end.
\<close>

definition slice_to :: "'a list \<Rightarrow> int \<Rightarrow> 'a list" where
  "slice_to xs n = (if n < 0 then take (nat (int (length xs) + n)) xs else take (nat n) xs)"

text \<open>
  In \<^verbatim>\<open>pick_trailer\<close> the sorted list is as long as \<open>trailers\<close>, which is not empty where
  its first element is read.
\<close>

definition pick_trailer :: "Post list \<Rightarrow> Post option" where
  "pick_trailer posts =
     (let trailers = filter is_trailer posts
      in if trailers = [] then None
         else Some (hd (py_sorted_reverse num_comments trailers)))"

definition pick_other_posts :: "Post list \<Rightarrow> int \<Rightarrow> Post list" where
  "pick_other_posts posts n =
     (let candidates = filter (\<lambda>p. \<not> truthy (episode_code p) \<and> \<not> is_trailer p) posts;
          candidates = py_sorted_reverse (\<lambda>p. (num_comments p, score p)) candidates
      in slice_to candidates n)"

definition episode_posts :: "Post list \<Rightarrow> Post list" where
  "episode_posts posts =
     (let eps = filter (\<lambda>p. truthy (episode_code p)) posts
      in py_sorted (\<lambda>p. (episode_code p, created_utc p)) eps)"

text \<open>
  Names for the filter and the sort key of \<^verbatim>\<open>pick_other_posts\<close>, used in statements.
\<close>

abbreviation other_candidates :: "Post list \<Rightarrow> Post list" where
  "other_candidates posts \<equiv> filter (\<lambda>p. \<not> truthy (episode_code p) \<and> \<not> is_trailer p) posts"

abbreviation other_key :: "Post \<Rightarrow> int \<times> int" where
  "other_key p \<equiv> (num_comments p, score p)"

text \<open>
  A post for the examples: an id, its two counts and its classification; the fields
  that play no part in the selection are empty.
\<close>

definition example_post :: "string \<Rightarrow> int \<Rightarrow> int \<Rightarrow> pystr option \<Rightarrow> bool \<Rightarrow> Post" where
  "example_post i c s ep tr = \<lparr>
     id' = lit i, name = lit ''t3_'' @ lit i, created_utc = 0, created_iso = [], title = [],
     permalink = [], url = [], author = [], score = s, num_comments = c,
     episode_code = ep, is_trailer = tr \<rparr>"

section \<open>Plotting\<close>

text \<open>
  A row of the history file as \<^verbatim>\<open>csv.DictReader\<close> returns it under the header that
  \<^verbatim>\<open>ensure_history_header\<close> writes: every column is a string.
\<close>

record HistoryRow =
  row_snapshot_utc :: pystr
  row_post_id :: pystr
  row_post_name :: pystr
  row_episode_code :: pystr
  row_is_episode :: pystr
  row_is_trailer :: pystr
  row_title :: pystr
  row_permalink :: pystr
  row_num_comments :: pystr

type_synonym point = "pydatetime \<times> int \<times> HistoryRow"

definition parse_dt :: "runtime \<Rightarrow> pystr \<Rightarrow> pydatetime option" where
  "parse_dt R s = fromisoformat R s"

text \<open>
  \<^verbatim>\<open>by_post\<close> is a dictionary; its keys are iterated in the order of their insertion, so
  it is an association list. \<^verbatim>\<open>by_post.setdefault(k, []).append(v)\<close>:
\<close>

fun setdefault_append :: "'k \<Rightarrow> 'v \<Rightarrow> ('k \<times> 'v list) list \<Rightarrow> ('k \<times> 'v list) list" where
  "setdefault_append k v [] = [(k, [v])]"
| "setdefault_append k v ((k', vs) # m) =
     (if k' = k then (k', vs @ [v]) # m else (k', vs) # setdefault_append k v m)"

definition by_post_step :: "runtime \<Rightarrow> HistoryRow \<Rightarrow> (pystr \<times> point list) list \<Rightarrow> (pystr \<times> point list) list" where
  "by_post_step R row m =
     (case parse_dt R (row_snapshot_utc row) of
        None \<Rightarrow> m
      | Some dt \<Rightarrow>
          setdefault_append (row_post_name row)
            (dt, safe_int R (PStr (row_num_comments row)) 0, row) m)"

definition by_post :: "runtime \<Rightarrow> HistoryRow list \<Rightarrow> (pystr \<times> point list) list" where
  "by_post R history_rows = fold (by_post_step R) history_rows []"

text \<open>
  \<^verbatim>\<open>by_post[k].sort(key=lambda x: x[0])\<close>. The keys are \<^verbatim>\<open>datetime\<close> values. A comparison
  sort of two or more elements compares, directly or through others, every element with
  every other, so a series that holds an aware and a naive value raises \<^verbatim>\<open>TypeError\<close>;
  a series of values of one kind is sorted stably by their position on the time line.
\<close>

definition instant :: "pydatetime \<Rightarrow> int" where
  "instant dt = (case dt of Naive t \<Rightarrow> t | Aware t \<Rightarrow> t)"

definition is_aware :: "pydatetime \<Rightarrow> bool" where
  "is_aware dt = (case dt of Naive _ \<Rightarrow> False | Aware _ \<Rightarrow> True)"

definition point_time :: "point \<Rightarrow> int" where
  "point_time p = instant (fst p)"

definition comparable :: "point list \<Rightarrow> bool" where
  "comparable series =
     (case series of
        [] \<Rightarrow> True
      | p # ps \<Rightarrow> list_all (\<lambda>q. is_aware (fst q) = is_aware (fst p)) ps)"

definition sort_series :: "point list \<Rightarrow> error + point list" where
  "sort_series series =
     (if comparable series then Inr (sort_key point_time series) else Inl TypeError)"

fun sort_all :: "(pystr \<times> point list) list \<Rightarrow> error + (pystr \<times> point list) list" where
  "sort_all [] = Inr []"
| "sort_all ((k, series) # m) =
     (case sort_series series of
        Inl e \<Rightarrow> Inl e
      | Inr sorted_series \<Rightarrow>
          (case sort_all m of
             Inl e \<Rightarrow> Inl e
           | Inr m' \<Rightarrow> Inr ((k, sorted_series) # m')))"

definition load_series :: "runtime \<Rightarrow> HistoryRow list \<Rightarrow> error + (pystr \<times> point list) list" where
  "load_series R history_rows = sort_all (by_post R history_rows)"

text \<open>
  The two plotting loops go over the groups in dictionary order and keep the groups
  whose test \<^verbatim>\<open>series[0][2].get("is_episode") == "1"\<close> has the wanted value: the episode
  plot those where it is true, the non-episode plot those where it is false.
  \<^verbatim>\<open>series[0]\<close> raises \<^verbatim>\<open>IndexError\<close> for an empty series.
\<close>

definition is_episode :: "point list \<Rightarrow> error + bool" where
  "is_episode series =
     (case series of
        [] \<Rightarrow> Inl IndexError
      | (_, _, row) # _ \<Rightarrow> Inr (row_is_episode row = lit ''1''))"

fun select_series :: "bool \<Rightarrow> (pystr \<times> point list) list \<Rightarrow> error + (pystr \<times> point list) list" where
  "select_series wanted [] = Inr []"
| "select_series wanted ((post_name, series) # m) =
     (case is_episode series of
        Inl e \<Rightarrow> Inl e
      | Inr b \<Rightarrow>
          (case select_series wanted m of
             Inl e \<Rightarrow> Inl e
           | Inr r \<Rightarrow> Inr (if b = wanted then (post_name, series) # r else r)))"

text \<open>
  What is handed to \<^verbatim>\<open>plt.plot\<close> for one series: the times, the comment counts and the
  label. \<^verbatim>\<open>str.strip\<close> removes white space at both ends.
\<close>

record line =
  line_x :: "pydatetime list"
  line_y :: "int list"
  line_label :: pystr

definition py_strip :: "runtime \<Rightarrow> pystr \<Rightarrow> pystr" where
  "py_strip R s = rev (dropWhile (isspace R) (rev (dropWhile (isspace R) s)))"

definition first_row :: "point list \<Rightarrow> HistoryRow option" where
  "first_row series = (case series of [] \<Rightarrow> None | (_, _, row) # _ \<Rightarrow> Some row)"

definition episode_line :: "pystr \<times> point list \<Rightarrow> line" where
  "episode_line g =
     \<lparr> line_x = map fst (snd g),
       line_y = map (\<lambda>p. fst (snd p)) (snd g),
       line_label = (case first_row (snd g) of
                       None \<Rightarrow> fst g
                     | Some row \<Rightarrow> if row_episode_code row = [] then fst g else row_episode_code row) \<rparr>"

definition non_episode_line :: "runtime \<Rightarrow> pystr \<times> point list \<Rightarrow> line" where
  "non_episode_line R g =
     (let ttl = (case first_row (snd g) of None \<Rightarrow> [] | Some row \<Rightarrow> row_title row)
      in \<lparr> line_x = map fst (snd g),
           line_y = map (\<lambda>p. fst (snd p)) (snd g),
           line_label = py_strip R (take 40 ttl) @ (if length ttl > 40 then [8230] else []) \<rparr>)"

text \<open>
  \<^verbatim>\<open>make_plots\<close>: \<open>None\<close> for the history stands for a file that does not exist. A plot is
  saved only when it has a line (\<^verbatim>\<open>plotted_any\<close>); \<open>None\<close> is a plot that is not written.
\<close>

record plots =
  episode_plot :: "line list option"
  non_episode_plot :: "line list option"

definition saved :: "line list \<Rightarrow> line list option" where
  "saved ls = (if ls = [] then None else Some ls)"

definition make_plots :: "runtime \<Rightarrow> HistoryRow list option \<Rightarrow> error + plots" where
  "make_plots R history =
     (case history of
        None \<Rightarrow> Inr \<lparr> episode_plot = None, non_episode_plot = None \<rparr>
      | Some history_rows \<Rightarrow>
          (case load_series R history_rows of
             Inl e \<Rightarrow> Inl e
           | Inr groups \<Rightarrow>
               (case select_series True groups of
                  Inl e \<Rightarrow> Inl e
                | Inr eps \<Rightarrow>
                    (case select_series False groups of
                       Inl e \<Rightarrow> Inl e
                     | Inr others \<Rightarrow>
                         Inr \<lparr> episode_plot = saved (map episode_line eps),
                               non_episode_plot = saved (map (non_episode_line R) others) \<rparr>))))"

text \<open>
  For the statements about the series: the points that the rows of one post contribute,
  in file order (rows whose time does not parse contribute none), and the point of a
  series that a stable ascending sort puts first: the first in file order among those
  with the least time.
\<close>

definition points_of :: "runtime \<Rightarrow> pystr \<Rightarrow> HistoryRow list \<Rightarrow> point list" where
  "points_of R k history_rows =
     List.map_filter
       (\<lambda>row. case parse_dt R (row_snapshot_utc row) of
                None \<Rightarrow> None
              | Some dt \<Rightarrow>
                  if row_post_name row = k
                  then Some (dt, safe_int R (PStr (row_num_comments row)) 0, row)
                  else None)
       history_rows"

definition earliest_point :: "point list \<Rightarrow> point option" where
  "earliest_point pts = find (\<lambda>p. \<forall>q\<in>set pts. point_time p \<le> point_time q) pts"

definition point_flag :: "point \<Rightarrow> pystr" where
  "point_flag p = row_is_episode (snd (snd p))"

text \<open>
  A history row for the examples: its snapshot time, post name and \<^verbatim>\<open>is_episode\<close> flag;
  the other columns are empty.
\<close>

definition example_row :: "string \<Rightarrow> string \<Rightarrow> string \<Rightarrow> HistoryRow" where
  "example_row ts pn flag = \<lparr>
     row_snapshot_utc = lit ts, row_post_id = [], row_post_name = lit pn, row_episode_code = [],
     row_is_episode = lit flag, row_is_trailer = [], row_title = [], row_permalink = [],
     row_num_comments = [] \<rparr>"

text \<open>
  Two logs for the examples, each with two rows of the post \<^verbatim>\<open>t3_abc\<close>. In the first the
  later snapshot comes first in the file and the two rows differ in their flag. In the
  second one time is written without an offset and the other with one.
\<close>

definition flicker_log :: "HistoryRow list" where
  "flicker_log =
     [example_row ''2024-01-02T00:00:00+00:00'' ''t3_abc'' ''0'',
      example_row ''2024-01-01T00:00:00+00:00'' ''t3_abc'' ''1'']"

definition mixed_log :: "HistoryRow list" where
  "mixed_log =
     [example_row ''2024-01-01T00:00:00'' ''t3_abc'' ''1'',
      example_row ''2024-01-02T00:00:00+00:00'' ''t3_abc'' ''1'']"

section \<open>Evaluation lemmas\<close>

text \<open>
  The fields of the concrete runtime and of the example records, for evaluating the
  model on concrete inputs.
\<close>

lemma cpython_simps:
  "isdecimal cpython c = (if 48 \<le> c \<and> c \<le> 57 then Some (c - 48) else None)"
  "isdigit cpython c = ((48 \<le> c \<and> c \<le> 57) \<or> c = 178 \<or> c = 179 \<or> c = 185)"
  "isalnum cpython c = ((48 \<le> c \<and> c \<le> 57) \<or> (65 \<le> c \<and> c \<le> 90) \<or> (97 \<le> c \<and> c \<le> 122)
        \<or> c = 170 \<or> c = 178 \<or> c = 179 \<or> c = 181 \<or> c = 185 \<or> c = 186
        \<or> (188 \<le> c \<and> c \<le> 190) \<or> (192 \<le> c \<and> c \<le> 214) \<or> (216 \<le> c \<and> c \<le> 246)
        \<or> (248 \<le> c \<and> c \<le> 255))"
  "isspace cpython c = ((9 \<le> c \<and> c \<le> 13) \<or> (28 \<le> c \<and> c \<le> 32) \<or> c = 133 \<or> c = 160
        \<or> c = 5760 \<or> (8192 \<le> c \<and> c \<le> 8202) \<or> c = 8232 \<or> c = 8233 \<or> c = 8239
        \<or> c = 8287 \<or> c = 12288)"
  "str_lower cpython = map latin1_lower"
  "int_of_str cpython s = (if s = [] then None else ascii_int s 0)"
  "sleep_raises cpython w
     = (if w < 0 then Some ValueError else if 9223372036 < w then Some OverflowError else None)"
  by (simp_all add: cpython_def)


lemma cpython_times:
  "parse_dt cpython (lit ''2024-01-01T00:00:00+00:00'') = Some (Aware 1704067200000000)"
  "parse_dt cpython (lit ''2024-01-02T00:00:00+00:00'') = Some (Aware 1704153600000000)"
  "parse_dt cpython (lit ''2024-01-03T00:00:00+00:00'') = Some (Aware 1704240000000000)"
  "parse_dt cpython (lit ''2024-01-01T00:00:00'') = Some (Naive 1704067200000000)"
  "parse_dt cpython (lit ''not a time'') = None"
  by (simp_all add: parse_dt_def cpython_def midnights_def lit_def)

lemma example_row_simps:
  "row_snapshot_utc (example_row ts pn flag) = lit ts"
  "row_post_name (example_row ts pn flag) = lit pn"
  "row_is_episode (example_row ts pn flag) = lit flag"
  "row_num_comments (example_row ts pn flag) = []"
  by (simp_all add: example_row_def)

lemma safe_int_empty: "safe_int cpython (PStr []) 0 = 0"
  by (simp add: safe_int_def py_int_def cpython_def)


lemma example_post_simps:
  "num_comments (example_post i c s ep tr) = c"
  "score (example_post i c s ep tr) = s"
  "episode_code (example_post i c s ep tr) = ep"
  "is_trailer (example_post i c s ep tr) = tr"
  by (simp_all add: example_post_def)


section \<open>Properties of the title classifier\<close>

subsection \<open>The matcher and the meaning of a pattern\<close>

lemma first_some_Some: "first_some f ks = Some y \<Longrightarrow> \<exists>k\<in>set ks. f k = Some y"
  by (induction ks) (auto split: option.splits)

lemma first_some_None: "first_some f ks = None \<longleftrightarrow> (\<forall>k\<in>set ks. f k = None)"
  by (induction ks) (auto split: option.splits)

lemma takeWhile_covers:
  "k \<le> length (takeWhile P s) \<longleftrightarrow> k \<le> length s \<and> (\<forall>x\<in>set (take k s). P x)"
proof (induction s arbitrary: k)
  case Nil
  then show ?case by simp
next
  case (Cons a s)
  then show ?case by (cases k) auto
qed

lemma char_before_take:
  "k \<le> length s \<Longrightarrow> char_before prev s k = last_char prev (take k s)"
proof (cases k)
  case 0
  then show ?thesis by (simp add: char_before_def last_char_def)
next
  case (Suc j)
  assume "k \<le> length s"
  with Suc have j: "j < length s" by simp
  then have "drop j s = s ! j # drop (Suc j) s"
    by (simp add: Cons_nth_drop_Suc)
  moreover from j have "last (take (Suc j) s) = s ! j"
    by (simp add: take_Suc_conv_app_nth)
  moreover from j have "take (Suc j) s \<noteq> []" by auto
  ultimately show ?thesis
    using Suc by (simp add: char_before_def last_char_def first_char_def)
qed

lemma counts_repeats:
  "k \<in> set (counts R c lo hi s) \<longleftrightarrow> k \<le> length s \<and> repeats R c lo hi (take k s)"
proof -
  have "k \<in> set (counts R c lo hi s) \<longleftrightarrow>
        lo \<le> k \<and> within hi k \<and> k \<le> length (takeWhile (in_class R c) s)"
    by (auto simp: counts_def within_def Let_def split: option.splits)
  also have "\<dots> \<longleftrightarrow> k \<le> length s \<and> repeats R c lo hi (take k s)"
    unfolding repeats_def takeWhile_covers by (auto simp: min_def)
  finally show ?thesis .
qed

lemma repeats_split:
  "s = w @ rest \<Longrightarrow> repeats R c lo hi w \<Longrightarrow>
     length w \<in> set (counts R c lo hi s) \<and> take (length w) s = w \<and> drop (length w) s = rest
     \<and> char_before prev s (length w) = last_char prev w"
  by (simp add: counts_repeats char_before_take)

lemma match_here_sound:
  "match_here R ns prev s = Some gs \<Longrightarrow> occurs_at R ns prev s gs"
proof (induction R ns prev s arbitrary: gs rule: match_here.induct)
  case (1 R prev s)
  then show ?case by simp
next
  case (2 R ns prev s)
  then show ?case by (simp split: if_splits)
next
  case (3 R c lo hi ns prev s)
  from "3.prems" obtain k where k: "k \<in> set (counts R c lo hi s)"
    and m: "match_here R ns (char_before prev s k) (drop k s) = Some gs"
    by (auto dest: first_some_Some)
  from k have kl: "k \<le> length s" and rp: "repeats R c lo hi (take k s)"
    by (simp_all add: counts_repeats)
  from "3.IH" [OF m] kl have "occurs_at R ns (last_char prev (take k s)) (drop k s) gs"
    by (simp add: char_before_take)
  moreover have "s = take k s @ drop k s" by simp
  ultimately show ?case
    using rp unfolding occurs_at.simps by blast
next
  case (4 R c lo hi ns prev s)
  from "4.prems" obtain k where k: "k \<in> set (counts R c lo hi s)"
    and m: "map_option (Cons (take k s)) (match_here R ns (char_before prev s k) (drop k s)) = Some gs"
    by (auto dest: first_some_Some)
  then obtain gs' where gs: "gs = take k s # gs'"
    and m': "match_here R ns (char_before prev s k) (drop k s) = Some gs'"
    by auto
  from k have kl: "k \<le> length s" and rp: "repeats R c lo hi (take k s)"
    by (simp_all add: counts_repeats)
  from "4.IH" [OF m'] kl have "occurs_at R ns (last_char prev (take k s)) (drop k s) gs'"
    by (simp add: char_before_take)
  moreover have "s = take k s @ drop k s" by simp
  ultimately show ?case
    using rp gs unfolding occurs_at.simps by blast
qed

lemma match_here_complete:
  "occurs_at R ns prev s gs \<Longrightarrow> match_here R ns prev s \<noteq> None"
proof (induction R ns prev s arbitrary: gs rule: match_here.induct)
  case (1 R prev s)
  then show ?case by simp
next
  case (2 R ns prev s)
  then show ?case by auto
next
  case (3 R c lo hi ns prev s)
  from "3.prems" obtain w rest where s: "s = w @ rest" and rp: "repeats R c lo hi w"
    and o: "occurs_at R ns (last_char prev w) rest gs"
    by auto
  from repeats_split [OF s rp, of prev] o
  have k: "length w \<in> set (counts R c lo hi s)"
    and "occurs_at R ns (char_before prev s (length w)) (drop (length w) s) gs"
    by simp_all
  from "3.IH" [OF this(2)] k show ?case
    by (auto simp: first_some_None)
next
  case (4 R c lo hi ns prev s)
  from "4.prems" obtain w rest gs' where s: "s = w @ rest" and rp: "repeats R c lo hi w"
    and o: "occurs_at R ns (last_char prev w) rest gs'"
    by auto
  from repeats_split [OF s rp, of prev] o
  have k: "length w \<in> set (counts R c lo hi s)"
    and "occurs_at R ns (char_before prev s (length w)) (drop (length w) s) gs'"
    by simp_all
  from "4.IH" [OF this(2)] k show ?case
    by (auto simp: first_some_None)
qed

lemma last_char_Cons: "last_char prev (c # pre) = last_char (Some c) pre"
  by (simp add: last_char_def)

lemma last_char_Nil: "last_char prev [] = prev"
  by (simp add: last_char_def)

lemma search_from_sound:
  "search_from R pat prev s = Some gs \<Longrightarrow>
     \<exists>pre post. s = pre @ post \<and> occurs_at R pat (last_char prev pre) post gs"
proof (induction R pat prev s rule: search_from.induct)
  case (1 R pat prev)
  then have "occurs_at R pat prev [] gs"
    by (simp add: match_here_sound)
  then have "[] = [] @ [] \<and> occurs_at R pat (last_char prev []) [] gs"
    by (simp add: last_char_def)
  then show ?case by - (rule exI, rule exI, assumption)
next
  case (2 R pat prev c s)
  show ?case
  proof (cases "match_here R pat prev (c # s)")
    case (Some hs)
    with "2.prems" have "match_here R pat prev (c # s) = Some gs" by simp
    then have "c # s = [] @ (c # s) \<and> occurs_at R pat (last_char prev []) (c # s) gs"
      by (simp add: match_here_sound last_char_def)
    then show ?thesis by - (rule exI, rule exI, assumption)
  next
    case None
    with "2.prems" have "search_from R pat (Some c) s = Some gs" by simp
    from "2.IH" [OF None this] obtain pre post where
      "s = pre @ post" "occurs_at R pat (last_char (Some c) pre) post gs"
      by (elim exE conjE) (rule that)
    then have "c # s = (c # pre) @ post \<and> occurs_at R pat (last_char prev (c # pre)) post gs"
      by (simp add: last_char_Cons)
    then show ?thesis by - (rule exI, rule exI, assumption)
  qed
qed

lemma search_from_complete:
  "s = pre @ post \<Longrightarrow> occurs_at R pat (last_char prev pre) post gs \<Longrightarrow>
     search_from R pat prev s \<noteq> None"
proof (induction R pat prev s arbitrary: pre rule: search_from.induct)
  case (1 R pat prev)
  then show ?case
    using match_here_complete [of R pat prev "[]" gs] by (simp add: last_char_def)
next
  case (2 R pat prev c s)
  show ?case
  proof (cases "match_here R pat prev (c # s)")
    case (Some hs)
    then show ?thesis by simp
  next
    case None
    have "pre \<noteq> []"
    proof
      assume "pre = []"
      with "2.prems" have "occurs_at R pat prev (c # s) gs"
        by (simp add: last_char_def)
      with None show False
        using match_here_complete [of R pat prev "c # s" gs] by simp
    qed
    then obtain pre' where pre: "pre = c # pre'"
      using "2.prems"(1) by (cases pre) auto
    with "2.prems" have "s = pre' @ post" "occurs_at R pat (last_char (Some c) pre') post gs"
      by (simp_all add: last_char_Cons)
    from "2.IH" [OF None this] None show ?thesis by simp
  qed
qed

lemma re_search_Some: "re_search R pat s = Some gs \<Longrightarrow> occurs R pat s gs"
  unfolding re_search_def occurs_def by (rule search_from_sound)

lemma re_search_None: "re_search R pat s = None \<longleftrightarrow> (\<forall>gs. \<not> occurs R pat s gs)"
proof
  assume n: "re_search R pat s = None"
  show "\<forall>gs. \<not> occurs R pat s gs"
  proof (intro allI notI)
    fix gs assume "occurs R pat s gs"
    then obtain pre post where "s = pre @ post" "occurs_at R pat (last_char None pre) post gs"
      by (auto simp: occurs_def)
    then have "search_from R pat None s \<noteq> None" by (rule search_from_complete)
    with n show False by (simp add: re_search_def)
  qed
next
  assume a: "\<forall>gs. \<not> occurs R pat s gs"
  show "re_search R pat s = None"
  proof (cases "re_search R pat s")
    case None
    then show ?thesis .
  next
    case (Some gs)
    then have "occurs R pat s gs" by (rule re_search_Some)
    with a show ?thesis by blast
  qed
qed

subsection \<open>The shape of the two patterns\<close>

lemma occurs_at_digits:
  "occurs_at R (Grp Digit 1 (Some 2) # ns) prev s gs \<longleftrightarrow>
     (\<exists>g rest gs'. s = g @ rest \<and> digits R g \<and> gs = g # gs'
        \<and> occurs_at R ns (Some (last g)) rest gs')"
proof -
  have "\<And>g. repeats R Digit 1 (Some 2) g \<longleftrightarrow> digits R g"
    by (auto simp: repeats_def digits_def within_def)
  moreover have "\<And>g. digits R g \<Longrightarrow> last_char prev g = Some (last g)"
    by (auto simp: digits_def last_char_def)
  ultimately show ?thesis
    by (simp only: occurs_at.simps) metis
qed

lemma occurs_at_spaces:
  "occurs_at R (Rep Space 0 None # ns) prev s gs \<longleftrightarrow>
     (\<exists>w rest. s = w @ rest \<and> spaces R w \<and> occurs_at R ns (last_char prev w) rest gs)"
  by (simp add: repeats_def spaces_def within_def)

lemma occurs_at_one_of:
  "occurs_at R (Rep (OneOf cs) 1 (Some 1) # ns) prev s gs \<longleftrightarrow>
     (\<exists>x rest. s = x # rest \<and> x \<in> set cs \<and> occurs_at R ns (Some x) rest gs)"
proof
  assume "occurs_at R (Rep (OneOf cs) 1 (Some 1) # ns) prev s gs"
  then obtain w rest where s: "s = w @ rest" and r: "repeats R (OneOf cs) 1 (Some 1) w"
    and o: "occurs_at R ns (last_char prev w) rest gs"
    by auto
  from r have "length w = 1" by (simp add: repeats_def within_def)
  then obtain x where w: "w = [x]" by (cases w) auto
  with r have "x \<in> set cs" by (simp add: repeats_def)
  with s o w show "\<exists>x rest. s = x # rest \<and> x \<in> set cs \<and> occurs_at R ns (Some x) rest gs"
    by (simp add: last_char_def)
next
  assume "\<exists>x rest. s = x # rest \<and> x \<in> set cs \<and> occurs_at R ns (Some x) rest gs"
  then obtain x rest where "s = [x] @ rest" "x \<in> set cs" "occurs_at R ns (last_char prev [x]) rest gs"
    by (auto simp: last_char_def)
  moreover from this have "repeats R (OneOf cs) 1 (Some 1) [x]"
    by (simp add: repeats_def within_def)
  ultimately show "occurs_at R (Rep (OneOf cs) 1 (Some 1) # ns) prev s gs"
    unfolding occurs_at.simps by blast
qed

lemma pattern_x_nested:
  "occurs_at R pattern_x prev s gs \<longleftrightarrow>
     at_boundary R prev s
     \<and> (\<exists>g1 r1 gs1. s = g1 @ r1 \<and> digits R g1 \<and> gs = g1 # gs1
         \<and> (\<exists>w1 r2. r1 = w1 @ r2 \<and> spaces R w1
             \<and> (\<exists>x r3. r2 = x # r3 \<and> x \<in> set (lit ''xX'')
                 \<and> (\<exists>w2 r4. r3 = w2 @ r4 \<and> spaces R w2
                     \<and> (\<exists>g2 rest gs2. r4 = g2 @ rest \<and> digits R g2 \<and> gs1 = g2 # gs2
                         \<and> at_boundary R (Some (last g2)) rest \<and> gs2 = [])))))"
  unfolding pattern_x_def occurs_at.simps(2) occurs_at_digits occurs_at_spaces occurs_at_one_of
    occurs_at.simps(1)
  by (rule refl)

lemma pattern_x_shape:
  "occurs_at R pattern_x prev s gs \<longleftrightarrow>
     at_boundary R prev s
     \<and> (\<exists>g1 w1 x w2 g2 rest.
           s = g1 @ w1 @ [x] @ w2 @ g2 @ rest \<and> gs = [g1, g2]
         \<and> digits R g1 \<and> spaces R w1 \<and> (x = 120 \<or> x = 88) \<and> spaces R w2 \<and> digits R g2
         \<and> at_boundary R (Some (last g2)) rest)"
proof -
  have x: "\<And>x. x \<in> set (lit ''xX'') \<longleftrightarrow> x = 120 \<or> x = 88"
    by (auto simp: lit_def)
  show ?thesis
  proof
    assume "occurs_at R pattern_x prev s gs"
    then obtain g1 r1 gs1 w1 r2 x r3 w2 r4 g2 rest gs2 where
      b: "at_boundary R prev s"
      and p: "s = g1 @ r1" "r1 = w1 @ r2" "r2 = x # r3" "r3 = w2 @ r4" "r4 = g2 @ rest"
      and g: "gs = g1 # gs1" "gs1 = g2 # gs2" "gs2 = []"
      and c: "digits R g1" "spaces R w1" "x \<in> set (lit ''xX'')" "spaces R w2" "digits R g2"
        "at_boundary R (Some (last g2)) rest"
      unfolding pattern_x_nested by blast
    from p have "s = g1 @ w1 @ [x] @ w2 @ g2 @ rest" by simp
    moreover from g have "gs = [g1, g2]" by simp
    ultimately show "at_boundary R prev s
     \<and> (\<exists>g1 w1 x w2 g2 rest.
           s = g1 @ w1 @ [x] @ w2 @ g2 @ rest \<and> gs = [g1, g2]
         \<and> digits R g1 \<and> spaces R w1 \<and> (x = 120 \<or> x = 88) \<and> spaces R w2 \<and> digits R g2
         \<and> at_boundary R (Some (last g2)) rest)"
      using b c x by blast
  next
    assume "at_boundary R prev s
     \<and> (\<exists>g1 w1 x w2 g2 rest.
           s = g1 @ w1 @ [x] @ w2 @ g2 @ rest \<and> gs = [g1, g2]
         \<and> digits R g1 \<and> spaces R w1 \<and> (x = 120 \<or> x = 88) \<and> spaces R w2 \<and> digits R g2
         \<and> at_boundary R (Some (last g2)) rest)"
    then obtain g1 w1 x w2 g2 rest where
      b: "at_boundary R prev s"
      and s: "s = g1 @ w1 @ [x] @ w2 @ g2 @ rest" and gs: "gs = [g1, g2]"
      and c: "digits R g1" "spaces R w1" "x = 120 \<or> x = 88" "spaces R w2" "digits R g2"
        "at_boundary R (Some (last g2)) rest"
      by blast
    from c(3) x have xin: "x \<in> set (lit ''xX'')" by blast
    have "g2 @ rest = g2 @ rest \<and> digits R g2 \<and> [g2] = g2 # [] \<and>
        at_boundary R (Some (last g2)) rest \<and> [] = ([]::pystr list)"
      using c by simp
    then have i5: "\<exists>g2' rest' gs2. g2 @ rest = g2' @ rest' \<and> digits R g2' \<and> [g2] = g2' # gs2
        \<and> at_boundary R (Some (last g2')) rest' \<and> gs2 = []"
      by - (rule exI, rule exI, rule exI, assumption)
    have i4: "\<exists>w2' r4. w2 @ g2 @ rest = w2' @ r4 \<and> spaces R w2'
        \<and> (\<exists>g2' rest' gs2. r4 = g2' @ rest' \<and> digits R g2' \<and> [g2] = g2' # gs2
            \<and> at_boundary R (Some (last g2')) rest' \<and> gs2 = [])"
      using i5 c(4) by - (rule exI [of _ w2], rule exI [of _ "g2 @ rest"], simp)
    have i3: "\<exists>x' r3. x # w2 @ g2 @ rest = x' # r3 \<and> x' \<in> set (lit ''xX'')
        \<and> (\<exists>w2' r4. r3 = w2' @ r4 \<and> spaces R w2'
          \<and> (\<exists>g2' rest' gs2. r4 = g2' @ rest' \<and> digits R g2' \<and> [g2] = g2' # gs2
            \<and> at_boundary R (Some (last g2')) rest' \<and> gs2 = []))"
      using i4 xin by - (rule exI [of _ x], rule exI [of _ "w2 @ g2 @ rest"], simp)
    have i2: "\<exists>w1' r2. w1 @ x # w2 @ g2 @ rest = w1' @ r2 \<and> spaces R w1'
        \<and> (\<exists>x' r3. r2 = x' # r3 \<and> x' \<in> set (lit ''xX'')
          \<and> (\<exists>w2' r4. r3 = w2' @ r4 \<and> spaces R w2'
            \<and> (\<exists>g2' rest' gs2. r4 = g2' @ rest' \<and> digits R g2' \<and> [g2] = g2' # gs2
              \<and> at_boundary R (Some (last g2')) rest' \<and> gs2 = [])))"
      using i3 c(2) by - (rule exI [of _ w1], rule exI [of _ "x # w2 @ g2 @ rest"], simp)
    have "\<exists>g1' r1 gs1. s = g1' @ r1 \<and> digits R g1' \<and> gs = g1' # gs1
         \<and> (\<exists>w1 r2. r1 = w1 @ r2 \<and> spaces R w1
             \<and> (\<exists>x r3. r2 = x # r3 \<and> x \<in> set (lit ''xX'')
                 \<and> (\<exists>w2 r4. r3 = w2 @ r4 \<and> spaces R w2
                     \<and> (\<exists>g2 rest gs2. r4 = g2 @ rest \<and> digits R g2 \<and> gs1 = g2 # gs2
                         \<and> at_boundary R (Some (last g2)) rest \<and> gs2 = []))))"
      using i2 c(1) s gs
      by - (rule exI [of _ g1], rule exI [of _ "w1 @ x # w2 @ g2 @ rest"], rule exI [of _ "[g2]"],
          simp)
    with b show "occurs_at R pattern_x prev s gs"
      unfolding pattern_x_nested by (rule conjI)
  qed
qed

lemma pattern_se_nested:
  "occurs_at R pattern_se prev s gs \<longleftrightarrow>
     at_boundary R prev s
     \<and> (\<exists>c1 r1. s = c1 # r1 \<and> c1 \<in> set (lit ''Ss'')
         \<and> (\<exists>g1 r2 gs1. r1 = g1 @ r2 \<and> digits R g1 \<and> gs = g1 # gs1
             \<and> (\<exists>w r3. r2 = w @ r3 \<and> spaces R w
                 \<and> (\<exists>c2 r4. r3 = c2 # r4 \<and> c2 \<in> set (lit ''Ee'')
                     \<and> (\<exists>g2 rest gs2. r4 = g2 @ rest \<and> digits R g2 \<and> gs1 = g2 # gs2
                         \<and> at_boundary R (Some (last g2)) rest \<and> gs2 = [])))))"
  unfolding pattern_se_def occurs_at.simps(2) occurs_at_digits occurs_at_spaces occurs_at_one_of
    occurs_at.simps(1)
  by (rule refl)

lemma pattern_se_shape:
  "occurs_at R pattern_se prev s gs \<longleftrightarrow>
     at_boundary R prev s
     \<and> (\<exists>c1 g1 w c2 g2 rest.
           s = [c1] @ g1 @ w @ [c2] @ g2 @ rest \<and> gs = [g1, g2]
         \<and> (c1 = 83 \<or> c1 = 115) \<and> digits R g1 \<and> spaces R w \<and> (c2 = 69 \<or> c2 = 101)
         \<and> digits R g2 \<and> at_boundary R (Some (last g2)) rest)"
proof -
  have c1: "\<And>x. x \<in> set (lit ''Ss'') \<longleftrightarrow> x = 83 \<or> x = 115"
    by (auto simp: lit_def)
  have c2: "\<And>x. x \<in> set (lit ''Ee'') \<longleftrightarrow> x = 69 \<or> x = 101"
    by (auto simp: lit_def)
  show ?thesis
  proof
    assume "occurs_at R pattern_se prev s gs"
    then obtain a r1 g1 r2 gs1 w r3 b r4 g2 rest gs2 where
      bd: "at_boundary R prev s"
      and p: "s = a # r1" "r1 = g1 @ r2" "r2 = w @ r3" "r3 = b # r4" "r4 = g2 @ rest"
      and g: "gs = g1 # gs1" "gs1 = g2 # gs2" "gs2 = []"
      and c: "a \<in> set (lit ''Ss'')" "digits R g1" "spaces R w" "b \<in> set (lit ''Ee'')"
        "digits R g2" "at_boundary R (Some (last g2)) rest"
      unfolding pattern_se_nested by blast
    from p have "s = [a] @ g1 @ w @ [b] @ g2 @ rest" by simp
    moreover from g have "gs = [g1, g2]" by simp
    ultimately show "at_boundary R prev s
     \<and> (\<exists>c1 g1 w c2 g2 rest.
           s = [c1] @ g1 @ w @ [c2] @ g2 @ rest \<and> gs = [g1, g2]
         \<and> (c1 = 83 \<or> c1 = 115) \<and> digits R g1 \<and> spaces R w \<and> (c2 = 69 \<or> c2 = 101)
         \<and> digits R g2 \<and> at_boundary R (Some (last g2)) rest)"
      using bd c c1 c2 by blast
  next
    assume "at_boundary R prev s
     \<and> (\<exists>c1 g1 w c2 g2 rest.
           s = [c1] @ g1 @ w @ [c2] @ g2 @ rest \<and> gs = [g1, g2]
         \<and> (c1 = 83 \<or> c1 = 115) \<and> digits R g1 \<and> spaces R w \<and> (c2 = 69 \<or> c2 = 101)
         \<and> digits R g2 \<and> at_boundary R (Some (last g2)) rest)"
    then obtain a g1 w b g2 rest where
      bd: "at_boundary R prev s"
      and s: "s = [a] @ g1 @ w @ [b] @ g2 @ rest" and gs: "gs = [g1, g2]"
      and c: "a = 83 \<or> a = 115" "digits R g1" "spaces R w" "b = 69 \<or> b = 101" "digits R g2"
        "at_boundary R (Some (last g2)) rest"
      by blast
    from c(1) c1 have ain: "a \<in> set (lit ''Ss'')" by blast
    from c(4) c2 have bin: "b \<in> set (lit ''Ee'')" by blast
    have "g2 @ rest = g2 @ rest \<and> digits R g2 \<and> [g2] = g2 # [] \<and>
        at_boundary R (Some (last g2)) rest \<and> [] = ([]::pystr list)"
      using c by simp
    then have i5: "\<exists>g2' rest' gs2. g2 @ rest = g2' @ rest' \<and> digits R g2' \<and> [g2] = g2' # gs2
        \<and> at_boundary R (Some (last g2')) rest' \<and> gs2 = []"
      by - (rule exI, rule exI, rule exI, assumption)
    have i4: "\<exists>c2 r4. b # g2 @ rest = c2 # r4 \<and> c2 \<in> set (lit ''Ee'')
        \<and> (\<exists>g2' rest' gs2. r4 = g2' @ rest' \<and> digits R g2' \<and> [g2] = g2' # gs2
            \<and> at_boundary R (Some (last g2')) rest' \<and> gs2 = [])"
      using i5 bin by - (rule exI [of _ b], rule exI [of _ "g2 @ rest"], simp)
    have i3: "\<exists>w' r3. w @ b # g2 @ rest = w' @ r3 \<and> spaces R w'
        \<and> (\<exists>c2 r4. r3 = c2 # r4 \<and> c2 \<in> set (lit ''Ee'')
          \<and> (\<exists>g2' rest' gs2. r4 = g2' @ rest' \<and> digits R g2' \<and> [g2] = g2' # gs2
            \<and> at_boundary R (Some (last g2')) rest' \<and> gs2 = []))"
      using i4 c(3) by - (rule exI [of _ w], rule exI [of _ "b # g2 @ rest"], simp)
    have i2: "\<exists>g1' r2 gs1. g1 @ w @ b # g2 @ rest = g1' @ r2 \<and> digits R g1' \<and> gs = g1' # gs1
        \<and> (\<exists>w' r3. r2 = w' @ r3 \<and> spaces R w'
          \<and> (\<exists>c2 r4. r3 = c2 # r4 \<and> c2 \<in> set (lit ''Ee'')
            \<and> (\<exists>g2' rest' gs2. r4 = g2' @ rest' \<and> digits R g2' \<and> gs1 = g2' # gs2
              \<and> at_boundary R (Some (last g2')) rest' \<and> gs2 = [])))"
      using i3 c(2) gs
      by - (rule exI [of _ g1], rule exI [of _ "w @ b # g2 @ rest"], rule exI [of _ "[g2]"], simp)
    have "\<exists>c1 r1. s = c1 # r1 \<and> c1 \<in> set (lit ''Ss'')
         \<and> (\<exists>g1 r2 gs1. r1 = g1 @ r2 \<and> digits R g1 \<and> gs = g1 # gs1
             \<and> (\<exists>w r3. r2 = w @ r3 \<and> spaces R w
                 \<and> (\<exists>c2 r4. r3 = c2 # r4 \<and> c2 \<in> set (lit ''Ee'')
                     \<and> (\<exists>g2 rest gs2. r4 = g2 @ rest \<and> digits R g2 \<and> gs1 = g2 # gs2
                         \<and> at_boundary R (Some (last g2)) rest \<and> gs2 = []))))"
      using i2 ain s
      by - (rule exI [of _ a], rule exI [of _ "g1 @ w @ b # g2 @ rest"], simp)
    with bd show "occurs_at R pattern_se prev s gs"
      unfolding pattern_se_nested by (rule conjI)
  qed
qed

lemma two_groups:
  assumes "pat = pattern_x \<or> pat = pattern_se" and "occurs R pat s gs"
  shows "\<exists>g1 g2. gs = [g1, g2] \<and> digits R g1 \<and> digits R g2"
proof -
  from assms(2) obtain pre post where "occurs_at R pat (last_char None pre) post gs"
    by (auto simp: occurs_def)
  with assms(1) show ?thesis
    by (auto simp: pattern_x_shape pattern_se_shape)
qed

lemma ep_patterns_two_groups:
  "pat \<in> set EP_PATTERNS \<Longrightarrow> re_search R pat s = Some gs \<Longrightarrow> \<exists>g1 g2. gs = [g1, g2]"
  using two_groups [of pat R s gs] re_search_Some [of R pat s gs]
  by (auto simp: EP_PATTERNS_def)

subsection \<open>Episode detection\<close>

lemma extract_episode_code_cases:
  "extract_episode_code R t =
     (case re_search R pattern_x t of
        Some gs \<Rightarrow> Some (episode_code_of (int_digits R (gs ! 0)) (int_digits R (gs ! 1)))
      | None \<Rightarrow>
          (case re_search R pattern_se t of
             Some gs \<Rightarrow> Some (episode_code_of (int_digits R (gs ! 0)) (int_digits R (gs ! 1)))
           | None \<Rightarrow> None))"
proof -
  have x: "\<And>gs. re_search R pattern_x t = Some gs \<Longrightarrow> \<exists>g1 g2. gs = [g1, g2]"
    by (rule ep_patterns_two_groups) (simp_all add: EP_PATTERNS_def)
  have se: "\<And>gs. re_search R pattern_se t = Some gs \<Longrightarrow> \<exists>g1 g2. gs = [g1, g2]"
    by (rule ep_patterns_two_groups) (simp_all add: EP_PATTERNS_def)
  show ?thesis
  proof (cases "re_search R pattern_x t")
    case (Some gs)
    with x obtain g1 g2 where "gs = [g1, g2]" by blast
    with Some show ?thesis
      by (simp add: extract_episode_code_def EP_PATTERNS_def)
  next
    case None
    show ?thesis
    proof (cases "re_search R pattern_se t")
      case (Some gs)
      with se obtain g1 g2 where "gs = [g1, g2]" by blast
      with Some None show ?thesis
        by (simp add: extract_episode_code_def EP_PATTERNS_def)
    next
      case n: None
      with None show ?thesis
        by (simp add: extract_episode_code_def EP_PATTERNS_def)
    qed
  qed
qed

lemma first_pattern_wins:
  assumes "occurs R pattern_x t gs"
  shows "\<exists>g1 g2. occurs R pattern_x t [g1, g2]
           \<and> extract_episode_code R t
               = Some (episode_code_of (int_digits R g1) (int_digits R g2))"
proof -
  from assms have "re_search R pattern_x t \<noteq> None"
    by (auto simp: re_search_None)
  then obtain hs where hs: "re_search R pattern_x t = Some hs" by auto
  then have o: "occurs R pattern_x t hs" by (rule re_search_Some)
  then obtain g1 g2 where g: "hs = [g1, g2]"
    using two_groups [of pattern_x R t hs] by auto
  from hs g have "extract_episode_code R t
      = Some (episode_code_of (int_digits R g1) (int_digits R g2))"
    by (simp add: extract_episode_code_cases)
  with o g show ?thesis by blast
qed

lemma second_pattern_next:
  assumes "\<forall>gs. \<not> occurs R pattern_x t gs" and "occurs R pattern_se t gs"
  shows "\<exists>g1 g2. occurs R pattern_se t [g1, g2]
           \<and> extract_episode_code R t
               = Some (episode_code_of (int_digits R g1) (int_digits R g2))"
proof -
  from assms(1) have n: "re_search R pattern_x t = None"
    by (simp add: re_search_None)
  from assms(2) have "re_search R pattern_se t \<noteq> None"
    by (auto simp: re_search_None)
  then obtain hs where hs: "re_search R pattern_se t = Some hs" by auto
  then have o: "occurs R pattern_se t hs" by (rule re_search_Some)
  then obtain g1 g2 where g: "hs = [g1, g2]"
    using two_groups [of pattern_se R t hs] by auto
  from n hs g have "extract_episode_code R t
      = Some (episode_code_of (int_digits R g1) (int_digits R g2))"
    by (simp add: extract_episode_code_cases)
  with o g show ?thesis by blast
qed

lemma no_pattern_no_code:
  assumes "\<forall>gs. \<not> occurs R pattern_x t gs" and "\<forall>gs. \<not> occurs R pattern_se t gs"
  shows "extract_episode_code R t = None"
  using assms by (simp add: extract_episode_code_cases re_search_None [symmetric])

lemma code_from_groups:
  assumes "extract_episode_code R t = Some code"
  shows "\<exists>g1 g2. digits R g1 \<and> digits R g2
           \<and> (occurs R pattern_x t [g1, g2] \<or> occurs R pattern_se t [g1, g2])
           \<and> code = episode_code_of (int_digits R g1) (int_digits R g2)"
proof (cases "re_search R pattern_x t")
  case (Some hs)
  then have o: "occurs R pattern_x t hs" by (rule re_search_Some)
  then obtain g1 g2 where g: "hs = [g1, g2]" "digits R g1" "digits R g2"
    using two_groups [of pattern_x R t hs] by auto
  with Some assms have "code = episode_code_of (int_digits R g1) (int_digits R g2)"
    by (simp add: extract_episode_code_cases)
  with o g show ?thesis by blast
next
  case None
  with assms obtain hs where hs: "re_search R pattern_se t = Some hs"
    by (auto simp: extract_episode_code_cases split: option.splits)
  then have o: "occurs R pattern_se t hs" by (rule re_search_Some)
  then obtain g1 g2 where g: "hs = [g1, g2]" "digits R g1" "digits R g2"
    using two_groups [of pattern_se R t hs] by auto
  with None hs assms have "code = episode_code_of (int_digits R g1) (int_digits R g2)"
    by (simp add: extract_episode_code_cases)
  with o g show ?thesis by blast
qed

lemma no_digit_no_code:
  assumes "\<forall>c\<in>set t. isdecimal R c = None"
  shows "extract_episode_code R t = None"
proof (rule ccontr)
  assume "extract_episode_code R t \<noteq> None"
  then obtain code where "extract_episode_code R t = Some code" by auto
  from code_from_groups [OF this] obtain pat g1 g2 where
    d: "digits R g1" and o: "occurs R pat t [g1, g2]" and p: "pat = pattern_x \<or> pat = pattern_se"
    by blast
  from o obtain pre post where t: "t = pre @ post"
    and oa: "occurs_at R pat (last_char None pre) post [g1, g2]"
    by (auto simp: occurs_def)
  from oa p have "set g1 \<subseteq> set post"
    by (auto simp: pattern_x_shape pattern_se_shape)
  moreover from d obtain c where "c \<in> set g1" "isdecimal R c \<noteq> None"
    by (cases g1) (auto simp: digits_def)
  ultimately show False using assms t by auto
qed

subsection \<open>The rendering of an episode code\<close>

declare str_nat.simps [simp del]

lemma str_nat_one_digit: "n < 10 \<Longrightarrow> str_nat n = [48 + n]"
  by (subst str_nat.simps) simp

lemma str_nat_two_digits: "10 \<le> n \<Longrightarrow> n < 100 \<Longrightarrow> str_nat n = [48 + n div 10, 48 + n mod 10]"
  by (subst str_nat.simps) (simp add: str_nat_one_digit)

lemma length_str_nat_ge2: "10 \<le> n \<Longrightarrow> 2 \<le> length (str_nat n)"
proof -
  assume n: "10 \<le> n"
  have "str_nat (n div 10) \<noteq> []"
    by (subst str_nat.simps) (simp del: str_nat.simps)
  then have "1 \<le> length (str_nat (n div 10))"
    by (cases "str_nat (n div 10)") simp_all
  moreover have "str_nat n = str_nat (n div 10) @ [48 + n mod 10]"
    using n by (subst str_nat.simps) simp
  ultimately show ?thesis by simp
qed

lemma format_02d_cases: "format_02d n = (if n < 10 then [48, 48 + n] else str_nat n)"
proof (cases "n < 10")
  case True
  then show ?thesis by (simp add: format_02d_def str_nat_one_digit)
next
  case False
  then have "2 \<le> length (str_nat n)" by (simp add: length_str_nat_ge2)
  with False show ?thesis by (simp add: format_02d_def Let_def)
qed

lemma format_02d_below_100: "n < 100 \<Longrightarrow> format_02d n = [48 + n div 10, 48 + n mod 10]"
  by (cases "n < 10") (simp_all add: format_02d_cases str_nat_two_digits)

subsection \<open>The order of episode codes\<close>

lemma two_digit_order:
  "(a::nat) < b \<longleftrightarrow> a div 10 < b div 10 \<or> (a div 10 = b div 10 \<and> a mod 10 < b mod 10)"
proof -
  define qa ra qb rb where "qa = a div 10" and "ra = a mod 10" and "qb = b div 10" and "rb = b mod 10"
  have "a = 10 * qa + ra" "b = 10 * qb + rb" "ra < 10" "rb < 10"
    by (simp_all add: qa_def ra_def qb_def rb_def)
  then have "a < b \<longleftrightarrow> qa < qb \<or> (qa = qb \<and> ra < rb)"
    by arith
  then show ?thesis
    by (simp only: qa_def ra_def qb_def rb_def)
qed

lemma episode_code_one_digit_season:
  "s < 10 \<Longrightarrow> e < 100 \<Longrightarrow>
     episode_code_of s e = [48 + s, 120, 48 + e div 10, 48 + e mod 10]"
proof -
  assume "s < 10" "e < 100"
  then have "str_nat s = [48 + s]" "format_02d e = [48 + e div 10, 48 + e mod 10]"
    by (simp_all only: str_nat_one_digit format_02d_below_100)
  moreover have "lit ''x'' = [120]" by (simp add: lit_def)
  ultimately show ?thesis
    by (simp only: episode_code_of_def append.simps)
qed

lemma episode_code_two_digit_season:
  "10 \<le> s \<Longrightarrow> s < 100 \<Longrightarrow> e < 100 \<Longrightarrow>
     episode_code_of s e = [48 + s div 10, 48 + s mod 10, 120, 48 + e div 10, 48 + e mod 10]"
proof -
  assume "10 \<le> s" "s < 100" "e < 100"
  then have "str_nat s = [48 + s div 10, 48 + s mod 10]"
    "format_02d e = [48 + e div 10, 48 + e mod 10]"
    by (simp_all only: str_nat_two_digits format_02d_below_100)
  moreover have "lit ''x'' = [120]" by (simp add: lit_def)
  ultimately show ?thesis
    by (simp only: episode_code_of_def append.simps)
qed

lemma digit_pair_order:
  "[48 + a div 10, 48 + a mod 10] @ zs < [48 + b div 10, 48 + b mod 10] @ zs' \<longleftrightarrow>
     a < b \<or> (a = b \<and> zs < zs')" for a b :: nat
proof -
  have "[48 + a div 10, 48 + a mod 10] @ zs < [48 + b div 10, 48 + b mod 10] @ zs' \<longleftrightarrow>
        a div 10 < b div 10
        \<or> (a div 10 = b div 10 \<and> (a mod 10 < b mod 10 \<or> (a mod 10 = b mod 10 \<and> zs < zs')))"
    by simp
  also have "\<dots> \<longleftrightarrow>
        (a div 10 < b div 10 \<or> (a div 10 = b div 10 \<and> a mod 10 < b mod 10))
        \<or> (a div 10 = b div 10 \<and> a mod 10 = b mod 10 \<and> zs < zs')"
    by blast
  also have "a div 10 < b div 10 \<or> (a div 10 = b div 10 \<and> a mod 10 < b mod 10) \<longleftrightarrow> a < b"
    by (rule two_digit_order [symmetric])
  also have "a div 10 = b div 10 \<and> a mod 10 = b mod 10 \<and> zs < zs' \<longleftrightarrow> a = b \<and> zs < zs'"
    by (metis div_mult_mod_eq)
  finally show ?thesis .
qed

lemma order_same_width:
  assumes "s1 \<le> 99" "s2 \<le> 99" "e1 \<le> 99" "e2 \<le> 99" "s1 < 10 \<longleftrightarrow> s2 < 10"
  shows "episode_code_of s1 e1 < episode_code_of s2 e2 \<longleftrightarrow> (s1, e1) < (s2, e2)"
proof (cases "s1 < 10")
  case True
  with assms have s2: "s2 < 10" by simp
  have e: "[48 + e1 div 10, 48 + e1 mod 10] < [48 + e2 div 10, 48 + e2 mod 10] \<longleftrightarrow> e1 < e2"
    using digit_pair_order [of e1 "[]" e2 "[]"] by simp
  have "episode_code_of s1 e1 < episode_code_of s2 e2 \<longleftrightarrow>
        [48 + s1, 120, 48 + e1 div 10, 48 + e1 mod 10]
          < [48 + s2, 120, 48 + e2 div 10, 48 + e2 mod 10]"
    using True s2 assms by (simp only: episode_code_one_digit_season)
  also have "\<dots> \<longleftrightarrow> s1 < s2 \<or> (s1 = s2 \<and>
        [48 + e1 div 10, 48 + e1 mod 10] < [48 + e2 div 10, 48 + e2 mod 10])"
    by simp
  also have "\<dots> \<longleftrightarrow> s1 < s2 \<or> (s1 = s2 \<and> e1 < e2)"
    by (simp only: e)
  also have "\<dots> \<longleftrightarrow> (s1, e1) < (s2, e2)"
    by auto
  finally show ?thesis .
next
  case False
  with assms have s2: "\<not> s2 < 10" by simp
  have e: "[48 + e1 div 10, 48 + e1 mod 10] < [48 + e2 div 10, 48 + e2 mod 10] \<longleftrightarrow> e1 < e2"
    using digit_pair_order [of e1 "[]" e2 "[]"] by simp
  have "episode_code_of s1 e1 < episode_code_of s2 e2 \<longleftrightarrow>
        [48 + s1 div 10, 48 + s1 mod 10] @ [120, 48 + e1 div 10, 48 + e1 mod 10]
          < [48 + s2 div 10, 48 + s2 mod 10] @ [120, 48 + e2 div 10, 48 + e2 mod 10]"
    using False s2 assms by (simp add: episode_code_two_digit_season del: Cons_less_Cons)
  also have "\<dots> \<longleftrightarrow> s1 < s2 \<or> (s1 = s2 \<and>
        [120, 48 + e1 div 10, 48 + e1 mod 10] < [120, 48 + e2 div 10, 48 + e2 mod 10])"
    by (rule digit_pair_order)
  also have "\<dots> \<longleftrightarrow> s1 < s2 \<or> (s1 = s2 \<and>
        [48 + e1 div 10, 48 + e1 mod 10] < [48 + e2 div 10, 48 + e2 mod 10])"
    by simp
  also have "\<dots> \<longleftrightarrow> s1 < s2 \<or> (s1 = s2 \<and> e1 < e2)"
    by (simp only: e)
  also have "\<dots> \<longleftrightarrow> (s1, e1) < (s2, e2)"
    by auto
  finally show ?thesis .
qed

lemma order_mixed_width:
  assumes "s1 \<le> 9" "10 \<le> s2" "s2 \<le> 99" "e1 \<le> 99" "e2 \<le> 99"
  shows "episode_code_of s1 e1 < episode_code_of s2 e2 \<longleftrightarrow> s1 < s2 div 10"
proof -
  have m: "s2 mod 10 < 10" by simp
  have "episode_code_of s1 e1 < episode_code_of s2 e2 \<longleftrightarrow>
        [48 + s1, 120, 48 + e1 div 10, 48 + e1 mod 10]
          < [48 + s2 div 10, 48 + s2 mod 10, 120, 48 + e2 div 10, 48 + e2 mod 10]"
    using assms by (simp add: episode_code_one_digit_season episode_code_two_digit_season
        del: Cons_less_Cons)
  also have "\<dots> \<longleftrightarrow> s1 < s2 div 10 \<or> (s1 = s2 div 10 \<and> 120 < 48 + s2 mod 10)"
    by auto
  also have "\<dots> \<longleftrightarrow> s1 < s2 div 10"
    using m by arith
  finally show ?thesis .
qed

subsection \<open>Evaluation of the matcher\<close>

lemmas regex_eval = re_search_def pattern_x_def pattern_se_def lit_def cpython_simps counts_def
  at_boundary_def is_word_def first_char_def char_before_def

lemma search_examples:
  "re_search cpython pattern_x (lit ''3x7'') = Some [lit ''3'', lit ''7'']"
  "re_search cpython pattern_x (lit ''10x1'') = Some [lit ''10'', lit ''1'']"
  "re_search cpython pattern_x (lit ''2x1'') = Some [lit ''2'', lit ''1'']"
  "re_search cpython pattern_x (lit ''S01E02 3X4'') = Some [lit ''3'', lit ''4'']"
  "re_search cpython pattern_se (lit ''S01E02 3X4'') = Some [lit ''01'', lit ''02'']"
  "re_search cpython pattern_x (lit ''s1 e2'') = None"
  "re_search cpython pattern_se (lit ''s1 e2'') = Some [lit ''1'', lit ''2'']"
  by (simp_all add: regex_eval)

lemma int_digits_examples:
  "int_digits cpython (lit ''1'') = 1" "int_digits cpython (lit ''2'') = 2"
  "int_digits cpython (lit ''3'') = 3" "int_digits cpython (lit ''4'') = 4"
  "int_digits cpython (lit ''7'') = 7" "int_digits cpython (lit ''10'') = 10"
  "int_digits cpython (lit ''01'') = 1" "int_digits cpython (lit ''02'') = 2"
  by (simp_all add: int_digits_def digit_value_def cpython_simps lit_def)

lemma episode_code_3x07: "episode_code_of 3 7 = lit ''3x07''"
  using episode_code_one_digit_season [of 3 7] by (simp add: lit_def)

lemma episode_code_10x01: "episode_code_of 10 1 = lit ''10x01''"
  using episode_code_two_digit_season [of 10 1] by (simp add: lit_def)

lemma episode_code_2x01: "episode_code_of 2 1 = lit ''2x01''"
  using episode_code_one_digit_season [of 2 1] by (simp add: lit_def)

lemma episode_code_3x04: "episode_code_of 3 4 = lit ''3x04''"
  using episode_code_one_digit_season [of 3 4] by (simp add: lit_def)

lemma episode_code_1x02: "episode_code_of 1 2 = lit ''1x02''"
  using episode_code_one_digit_season [of 1 2] by (simp add: lit_def)

lemmas episode_code_examples = episode_code_3x07 episode_code_10x01 episode_code_2x01
  episode_code_3x04 episode_code_1x02

lemma extract_examples:
  "extract_episode_code cpython (lit ''3x7'') = Some (lit ''3x07'')"
  "extract_episode_code cpython (lit ''10x1'') = Some (lit ''10x01'')"
  "extract_episode_code cpython (lit ''2x1'') = Some (lit ''2x01'')"
  "extract_episode_code cpython (lit ''S01E02 3X4'') = Some (lit ''3x04'')"
  "extract_episode_code cpython (lit ''s1 e2'') = Some (lit ''1x02'')"
  by (simp_all add: extract_episode_code_cases search_examples int_digits_examples
      episode_code_examples del: One_nat_def)

text \<open>
  Claim C8. For every title, \<^verbatim>\<open>extract_episode_code\<close> tries the pattern
  \<open><season>x<episode>\<close> before the pattern \<open>S<season>E<episode>\<close>. When the first pattern
  occurs in the title, whether or not the second occurs too, the result is the code of
  an occurrence of the first; when only the second occurs, the result is the code of an
  occurrence of the second; when neither occurs, the result is absent. An occurrence of
  the first pattern is one or two digits, optional white space, \<open>x\<close> or \<open>X\<close>, optional
  white space and one or two digits, between word boundaries; an occurrence of the second
  is \<open>S\<close> or \<open>s\<close>, one or two digits, optional white space, \<open>E\<close> or \<open>e\<close> and one or two
  digits, between word boundaries. The code is the season number, the letter \<open>x\<close> and
  the episode number padded with a zero to two digits.
\<close>

theorem extract_episode_code_spec:
  "((\<exists>gs. occurs R pattern_x t gs) \<longrightarrow>
      (\<exists>g1 g2. occurs R pattern_x t [g1, g2]
         \<and> extract_episode_code R t
             = Some (episode_code_of (int_digits R g1) (int_digits R g2))))
   \<and> ((\<forall>gs. \<not> occurs R pattern_x t gs) \<and> (\<exists>gs. occurs R pattern_se t gs) \<longrightarrow>
      (\<exists>g1 g2. occurs R pattern_se t [g1, g2]
         \<and> extract_episode_code R t
             = Some (episode_code_of (int_digits R g1) (int_digits R g2))))
   \<and> ((\<forall>gs. \<not> occurs R pattern_x t gs) \<and> (\<forall>gs. \<not> occurs R pattern_se t gs) \<longrightarrow>
      extract_episode_code R t = None)
   \<and> (occurs_at R pattern_x prev s gs \<longleftrightarrow>
        at_boundary R prev s
        \<and> (\<exists>g1 w1 x w2 g2 rest.
              s = g1 @ w1 @ [x] @ w2 @ g2 @ rest \<and> gs = [g1, g2]
            \<and> digits R g1 \<and> spaces R w1 \<and> (x = 120 \<or> x = 88) \<and> spaces R w2 \<and> digits R g2
            \<and> at_boundary R (Some (last g2)) rest))
   \<and> (occurs_at R pattern_se prev s gs \<longleftrightarrow>
        at_boundary R prev s
        \<and> (\<exists>c1 g1 w c2 g2 rest.
              s = [c1] @ g1 @ w @ [c2] @ g2 @ rest \<and> gs = [g1, g2]
            \<and> (c1 = 83 \<or> c1 = 115) \<and> digits R g1 \<and> spaces R w \<and> (c2 = 69 \<or> c2 = 101)
            \<and> digits R g2 \<and> at_boundary R (Some (last g2)) rest))
   \<and> episode_code_of season ep = str_nat season @ lit ''x'' @ format_02d ep
   \<and> format_02d ep = (if ep < 10 then [48, 48 + ep] else str_nat ep)"
proof (intro conjI impI)
  assume "\<exists>gs. occurs R pattern_x t gs"
  then obtain gs where "occurs R pattern_x t gs" ..
  then show "\<exists>g1 g2. occurs R pattern_x t [g1, g2]
         \<and> extract_episode_code R t
             = Some (episode_code_of (int_digits R g1) (int_digits R g2))"
    by (rule first_pattern_wins)
next
  assume a: "(\<forall>gs. \<not> occurs R pattern_x t gs) \<and> (\<exists>gs. occurs R pattern_se t gs)"
  then obtain gs where "occurs R pattern_se t gs" by blast
  with a show "\<exists>g1 g2. occurs R pattern_se t [g1, g2]
         \<and> extract_episode_code R t
             = Some (episode_code_of (int_digits R g1) (int_digits R g2))"
    using second_pattern_next [of R t gs] by blast
next
  assume "(\<forall>gs. \<not> occurs R pattern_x t gs) \<and> (\<forall>gs. \<not> occurs R pattern_se t gs)"
  then show "extract_episode_code R t = None"
    using no_pattern_no_code [of R t] by blast
next
  show "occurs_at R pattern_x prev s gs \<longleftrightarrow>
        at_boundary R prev s
        \<and> (\<exists>g1 w1 x w2 g2 rest.
              s = g1 @ w1 @ [x] @ w2 @ g2 @ rest \<and> gs = [g1, g2]
            \<and> digits R g1 \<and> spaces R w1 \<and> (x = 120 \<or> x = 88) \<and> spaces R w2 \<and> digits R g2
            \<and> at_boundary R (Some (last g2)) rest)"
    by (rule pattern_x_shape)
next
  show "occurs_at R pattern_se prev s gs \<longleftrightarrow>
        at_boundary R prev s
        \<and> (\<exists>c1 g1 w c2 g2 rest.
              s = [c1] @ g1 @ w @ [c2] @ g2 @ rest \<and> gs = [g1, g2]
            \<and> (c1 = 83 \<or> c1 = 115) \<and> digits R g1 \<and> spaces R w \<and> (c2 = 69 \<or> c2 = 101)
            \<and> digits R g2 \<and> at_boundary R (Some (last g2)) rest)"
    by (rule pattern_se_shape)
next
  show "episode_code_of season ep = str_nat season @ lit ''x'' @ format_02d ep"
    by (rule episode_code_of_def)
next
  show "format_02d ep = (if ep < 10 then [48, 48 + ep] else str_nat ep)"
    by (rule format_02d_cases)
qed

theorem extract_episode_code_spec_witness:
  "(\<exists>gs. occurs cpython pattern_se (lit ''S01E02 3X4'') gs)
   \<and> (\<exists>g1 g2. occurs cpython pattern_x (lit ''S01E02 3X4'') [g1, g2]
        \<and> extract_episode_code cpython (lit ''S01E02 3X4'')
            = Some (episode_code_of (int_digits cpython g1) (int_digits cpython g2)))
   \<and> extract_episode_code cpython (lit ''S01E02 3X4'') = Some (lit ''3x04'')
   \<and> extract_episode_code cpython (lit ''s1 e2'') = Some (lit ''1x02'')"
proof -
  have se: "occurs cpython pattern_se (lit ''S01E02 3X4'') [lit ''01'', lit ''02'']"
    by (rule re_search_Some) (rule search_examples)
  have x: "occurs cpython pattern_x (lit ''S01E02 3X4'') [lit ''3'', lit ''4'']"
    by (rule re_search_Some) (rule search_examples)
  then have "\<exists>gs. occurs cpython pattern_x (lit ''S01E02 3X4'') gs" ..
  with extract_episode_code_spec [where R = cpython and t = "lit ''S01E02 3X4''"
      and prev = None and s = "[]" and gs = "[]" and season = 0 and ep = 0]
  have "\<exists>g1 g2. occurs cpython pattern_x (lit ''S01E02 3X4'') [g1, g2]
        \<and> extract_episode_code cpython (lit ''S01E02 3X4'')
            = Some (episode_code_of (int_digits cpython g1) (int_digits cpython g2))"
    by (elim conjE) (erule mp)
  moreover from se have "\<exists>gs. occurs cpython pattern_se (lit ''S01E02 3X4'') gs" ..
  ultimately show ?thesis
    by (simp only: extract_examples)
qed

text \<open>
  Claim C1. For every title, an extracted episode code is the season number in decimal,
  the letter \<open>x\<close> and the episode number in decimal padded with a zero to two digits,
  both numbers read from one or two digits of the title (the title \<open>3x7\<close> yields
  \<open>3x07\<close>). For two such codes with seasons from 1 to 99 and episodes from 0 to 99 whose
  seasons have the same number of digits, the lexicographic order of the codes is the
  order of the pairs (season, episode). The code of a one-digit season sorts before the
  code of a two-digit season exactly when the one-digit season is less than the first
  digit of the two-digit season.
\<close>

theorem episode_code_order:
  "(extract_episode_code R t = Some code \<longrightarrow>
      (\<exists>g1 g2. digits R g1 \<and> digits R g2
         \<and> code = episode_code_of (int_digits R g1) (int_digits R g2)))
   \<and> episode_code_of season ep = str_nat season @ lit ''x'' @ format_02d ep
   \<and> format_02d ep = (if ep < 10 then [48, 48 + ep] else str_nat ep)
   \<and> (1 \<le> s1 \<and> s1 \<le> 99 \<and> 1 \<le> s2 \<and> s2 \<le> 99 \<and> e1 \<le> 99 \<and> e2 \<le> 99
       \<and> (s1 < 10 \<longleftrightarrow> s2 < 10) \<longrightarrow>
        (episode_code_of s1 e1 < episode_code_of s2 e2 \<longleftrightarrow> (s1, e1) < (s2, e2)))
   \<and> (1 \<le> s1 \<and> s1 \<le> 9 \<and> 10 \<le> s2 \<and> s2 \<le> 99 \<and> e1 \<le> 99 \<and> e2 \<le> 99 \<longrightarrow>
        (episode_code_of s1 e1 < episode_code_of s2 e2 \<longleftrightarrow> s1 < s2 div 10))"
proof (intro conjI impI)
  assume "extract_episode_code R t = Some code"
  from code_from_groups [OF this]
  show "\<exists>g1 g2. digits R g1 \<and> digits R g2
         \<and> code = episode_code_of (int_digits R g1) (int_digits R g2)"
    by blast
next
  show "episode_code_of season ep = str_nat season @ lit ''x'' @ format_02d ep"
    by (rule episode_code_of_def)
next
  show "format_02d ep = (if ep < 10 then [48, 48 + ep] else str_nat ep)"
    by (rule format_02d_cases)
next
  assume "1 \<le> s1 \<and> s1 \<le> 99 \<and> 1 \<le> s2 \<and> s2 \<le> 99 \<and> e1 \<le> 99 \<and> e2 \<le> 99
       \<and> (s1 < 10 \<longleftrightarrow> s2 < 10)"
  then show "episode_code_of s1 e1 < episode_code_of s2 e2 \<longleftrightarrow> (s1, e1) < (s2, e2)"
    using order_same_width [of s1 s2 e1 e2] by blast
next
  assume "1 \<le> s1 \<and> s1 \<le> 9 \<and> 10 \<le> s2 \<and> s2 \<le> 99 \<and> e1 \<le> 99 \<and> e2 \<le> 99"
  then show "episode_code_of s1 e1 < episode_code_of s2 e2 \<longleftrightarrow> s1 < s2 div 10"
    using order_mixed_width [of s1 s2 e1 e2] by blast
qed

theorem episode_code_order_witness:
  "(\<exists>g1 g2. digits cpython g1 \<and> digits cpython g2
       \<and> lit ''3x07'' = episode_code_of (int_digits cpython g1) (int_digits cpython g2))
   \<and> extract_episode_code cpython (lit ''3x7'') = Some (lit ''3x07'')
   \<and> episode_code_of 2 10 < episode_code_of 3 1
   \<and> episode_code_of 10 10 < episode_code_of 11 1
   \<and> \<not> episode_code_of 2 1 < episode_code_of 10 1"
proof -
  have ex: "extract_episode_code cpython (lit ''3x7'') = Some (lit ''3x07'')"
    by (rule extract_examples)
  from episode_code_order [where R = cpython and t = "lit ''3x7''" and code = "lit ''3x07''"
      and season = 0 and ep = 0 and ?s1.0 = 1 and ?s2.0 = 1 and ?e1.0 = 0 and ?e2.0 = 0] ex
  have a: "\<exists>g1 g2. digits cpython g1 \<and> digits cpython g2
       \<and> lit ''3x07'' = episode_code_of (int_digits cpython g1) (int_digits cpython g2)"
    by (elim conjE) (erule mp)
  have h1: "(1::nat) \<le> 2 \<and> (2::nat) \<le> 99 \<and> (1::nat) \<le> 3 \<and> (3::nat) \<le> 99 \<and> (10::nat) \<le> 99
      \<and> (1::nat) \<le> 99 \<and> ((2::nat) < 10 \<longleftrightarrow> (3::nat) < 10)"
    by simp
  from episode_code_order [where R = cpython and t = "[]" and code = "[]" and season = 0
      and ep = 0 and ?s1.0 = 2 and ?s2.0 = 3 and ?e1.0 = 10 and ?e2.0 = 1]
  have "episode_code_of 2 10 < episode_code_of 3 1 \<longleftrightarrow> ((2::nat), (10::nat)) < (3, 1)"
    by (elim conjE) (erule mp, rule h1)
  then have b: "episode_code_of 2 10 < episode_code_of 3 1" by simp
  have h2: "(1::nat) \<le> 10 \<and> (10::nat) \<le> 99 \<and> (1::nat) \<le> 11 \<and> (11::nat) \<le> 99 \<and> (10::nat) \<le> 99
      \<and> (1::nat) \<le> 99 \<and> ((10::nat) < 10 \<longleftrightarrow> (11::nat) < 10)"
    by simp
  from episode_code_order [where R = cpython and t = "[]" and code = "[]" and season = 0
      and ep = 0 and ?s1.0 = 10 and ?s2.0 = 11 and ?e1.0 = 10 and ?e2.0 = 1]
  have "episode_code_of 10 10 < episode_code_of 11 1 \<longleftrightarrow> ((10::nat), (10::nat)) < (11, 1)"
    by (elim conjE) (erule mp, rule h2)
  then have c: "episode_code_of 10 10 < episode_code_of 11 1" by simp
  have h3: "(1::nat) \<le> 2 \<and> (2::nat) \<le> 9 \<and> (10::nat) \<le> 10 \<and> (10::nat) \<le> 99 \<and> (1::nat) \<le> 99
      \<and> (1::nat) \<le> 99"
    by simp
  from episode_code_order [where R = cpython and t = "[]" and code = "[]" and season = 0
      and ep = 0 and ?s1.0 = 2 and ?s2.0 = 10 and ?e1.0 = 1 and ?e2.0 = 1]
  have "episode_code_of 2 1 < episode_code_of 10 1 \<longleftrightarrow> (2::nat) < 10 div 10"
    by (elim conjE) (erule mp, rule h3)
  then have d: "\<not> episode_code_of 2 1 < episode_code_of 10 1" by simp
  from a ex b c d show ?thesis by (intro conjI)
qed

theorem episode_code_order_counterexample:
  "extract_episode_code cpython (lit ''10x1'') = Some (lit ''10x01'')
   \<and> extract_episode_code cpython (lit ''2x1'') = Some (lit ''2x01'')
   \<and> lit ''10x01'' < lit ''2x01''
   \<and> \<not> ((10::nat, 1::nat) < (2, 1))"
  by (simp add: extract_examples) (simp add: lit_def)

subsection \<open>Trailer detection\<close>

lemma py_in_sublist: "py_in needle hay \<longleftrightarrow> sublist needle hay"
  by (induction hay) (simp_all add: sublist_Cons_right)

text \<open>
  Claim C9. For every title, \<^verbatim>\<open>is_official_trailer\<close> holds if and only if the
  lowercased title contains \<open>trailer\<close>, contains \<open>official\<close> and contains the topic
  phrase \<open>heated rivalry\<close>, each as a substring; so titles that are equal once
  lowercased get the same flag.
\<close>

theorem is_official_trailer_spec:
  "(is_official_trailer R t \<longleftrightarrow>
       sublist (lit ''trailer'') (str_lower R t)
     \<and> sublist (lit ''official'') (str_lower R t)
     \<and> sublist (lit ''heated rivalry'') (str_lower R t))
   \<and> (\<forall>other. str_lower R other = str_lower R t \<longrightarrow>
         is_official_trailer R other = is_official_trailer R t)"
  by (simp add: is_official_trailer_def Let_def py_in_sublist)

lemma lower_examples:
  "str_lower cpython plain_title = lit ''heated rivalry official trailer''"
  "str_lower cpython (lit ''HEATED RIVALRY official TRAILER'') = lit ''heated rivalry official trailer''"
  "str_lower cpython em_dash_title = lit ''heated rivalry '' @ 8212 # lit '' official trailer''"
  "str_lower cpython (lit ''Severance Official Trailer'') = lit ''severance official trailer''"
  by (simp_all add: cpython_simps lit_def latin1_lower_def em_dash_title_def plain_title_def)

lemma needles_in_examples:
  "py_in (lit ''trailer'') (lit ''heated rivalry official trailer'')"
  "py_in (lit ''official'') (lit ''heated rivalry official trailer'')"
  "py_in (lit ''heated rivalry'') (lit ''heated rivalry official trailer'')"
  "py_in (lit ''trailer'') (lit ''heated rivalry '' @ 8212 # lit '' official trailer'')"
  "py_in (lit ''official'') (lit ''heated rivalry '' @ 8212 # lit '' official trailer'')"
  "py_in (lit ''heated rivalry'') (lit ''heated rivalry '' @ 8212 # lit '' official trailer'')"
  "\<not> py_in (lit ''heated rivalry'') (lit ''severance official trailer'')"
  by (simp_all add: lit_def)

lemma trailer_examples:
  "is_official_trailer cpython plain_title"
  "is_official_trailer cpython em_dash_title"
  "\<not> is_official_trailer cpython (lit ''Severance Official Trailer'')"
  by (simp_all only: is_official_trailer_def Let_def lower_examples needles_in_examples) simp_all

theorem is_official_trailer_spec_witness:
  "is_official_trailer cpython (lit ''HEATED RIVALRY official TRAILER'')
     = is_official_trailer cpython plain_title
   \<and> is_official_trailer cpython plain_title
   \<and> sublist (lit ''heated rivalry'') (str_lower cpython plain_title)"
proof -
  have same: "str_lower cpython (lit ''HEATED RIVALRY official TRAILER'')
      = str_lower cpython plain_title"
    by (simp only: lower_examples)
  have flag: "is_official_trailer cpython plain_title"
    by (rule trailer_examples)
  from is_official_trailer_spec [of cpython plain_title]
  have a: "is_official_trailer cpython plain_title \<longleftrightarrow>
       sublist (lit ''trailer'') (str_lower cpython plain_title)
     \<and> sublist (lit ''official'') (str_lower cpython plain_title)
     \<and> sublist (lit ''heated rivalry'') (str_lower cpython plain_title)"
    and b: "\<forall>other. str_lower cpython other = str_lower cpython plain_title \<longrightarrow>
         is_official_trailer cpython other = is_official_trailer cpython plain_title"
    by (rule conjunct1, rule conjunct2)
  from b same have "is_official_trailer cpython (lit ''HEATED RIVALRY official TRAILER'')
     = is_official_trailer cpython plain_title"
    by blast
  moreover from a flag
  have "sublist (lit ''heated rivalry'') (str_lower cpython plain_title)"
    by blast
  ultimately show ?thesis using flag by (intro conjI)
qed

text \<open>
  Claim C2. With the lowercasing of CPython, the title \<open>Heated Rivalry\<close>, space, em dash
  (U+2014), space, \<open>Official Trailer\<close> gets the trailer flag, and so does the title
  \<open>Heated Rivalry Official Trailer\<close>: the topic phrase \<open>heated rivalry\<close> is a substring
  of both lowercased titles.
\<close>

theorem em_dash_title_is_trailer:
  "is_official_trailer cpython em_dash_title
   \<and> is_official_trailer cpython plain_title
   \<and> py_in (lit ''heated rivalry'') (str_lower cpython em_dash_title)
   \<and> py_in (lit ''heated rivalry'') (str_lower cpython plain_title)"
  by (simp add: trailer_examples lower_examples needles_in_examples)

theorem em_dash_title_counterexample:
  "is_official_trailer cpython em_dash_title \<noteq> False"
  by (simp add: trailer_examples)

section \<open>Properties of the HTTP helper\<close>

lemma upto_1_5: "[1 .. 5] = [1, 2, 3, 4, 5 :: int]"
  by (simp add: upto.simps)

lemma attempts_retry_429:
  assumes "server (gets st) = Response r" "status_code r = 429"
    and "retry_wait R (retry_after r) attempt = Inr w" "sleep_raises R w = None"
  shows "attempts R server (attempt # rest) st
         = attempts R server rest (st\<lparr>gets := gets st + 1, sleeps := sleeps st @ [w]\<rparr>)"
  using assms by (simp add: Let_def sleep_def)

lemma attempts_retry_5xx:
  assumes "server (gets st) = Response r" "500 \<le> status_code r" "status_code r < 600"
    and "sleep_raises R (backoff attempt) = None"
  shows "attempts R server (attempt # rest) st
         = attempts R server rest (st\<lparr>gets := gets st + 1, sleeps := sleeps st @ [backoff attempt]\<rparr>)"
  using assms by (simp add: Let_def sleep_def)

lemma attempts_sleep_raises:
  assumes "server (gets st) = Response r" "status_code r = 429"
    and "retry_wait R (retry_after r) attempt = Inr w" "sleep_raises R w = Some e"
  shows "attempts R server (attempt # rest) st = (Inl e, st\<lparr>gets := gets st + 1\<rparr>)"
  using assms by (simp add: Let_def sleep_def)

lemma attempts_success:
  assumes "server (gets st) = Response r" "status_code r = 200"
    and "py_in (lit ''json'') (str_lower R (or_else (content_type r) []))"
    and "json_body r = Some body"
  shows "attempts R server (attempt # rest) st = (Inr body, st\<lparr>gets := gets st + 1\<rparr>)"
  using assms by (simp add: Let_def)

lemma retry_wait_cases:
  "retry_wait R ra attempt = Inr w \<longleftrightarrow>
     (case ra of
        None \<Rightarrow> w = backoff attempt
      | Some s \<Rightarrow>
          if s \<noteq> [] \<and> list_all (isdigit R) s then int_of_str R s = Some w
          else w = backoff attempt)"
  by (auto simp: retry_wait_def split: option.splits)

lemma request_json_three_429_then_200:
  assumes "server 0 = Response r1" "server 1 = Response r2" "server 2 = Response r3"
    and "server 3 = Response r4"
    and "status_code r1 = 429" "status_code r2 = 429" "status_code r3 = 429"
    and "status_code r4 = 200"
    and "retry_wait R (retry_after r1) 1 = Inr w1"
    and "retry_wait R (retry_after r2) 2 = Inr w2"
    and "retry_wait R (retry_after r3) 3 = Inr w3"
    and "sleep_raises R w1 = None" "sleep_raises R w2 = None" "sleep_raises R w3 = None"
    and "py_in (lit ''json'') (str_lower R (or_else (content_type r4) []))"
    and "json_body r4 = Some body"
  shows "request_json R server 5 = (Inr body, \<lparr>gets = 4, sleeps = [w1, w2, w3]\<rparr>)"
proof -
  have "request_json R server 5 = attempts R server [1, 2, 3, 4, 5] \<lparr>gets = 0, sleeps = []\<rparr>"
    by (simp only: request_json_def upto_1_5)
  also have "\<dots> = attempts R server [2, 3, 4, 5] \<lparr>gets = 1, sleeps = [w1]\<rparr>"
    using attempts_retry_429 [of server "\<lparr>gets = 0, sleeps = []\<rparr>" r1 R 1 w1] assms by (simp add: eval_nat_numeral del: attempts.simps)
  also have "\<dots> = attempts R server [3, 4, 5] \<lparr>gets = 2, sleeps = [w1, w2]\<rparr>"
    using attempts_retry_429 [of server "\<lparr>gets = 1, sleeps = [w1]\<rparr>" r2 R 2 w2] assms by (simp add: eval_nat_numeral del: attempts.simps)
  also have "\<dots> = attempts R server [4, 5] \<lparr>gets = 3, sleeps = [w1, w2, w3]\<rparr>"
    using attempts_retry_429 [of server "\<lparr>gets = 2, sleeps = [w1, w2]\<rparr>" r3 R 3 w3] assms by (simp add: eval_nat_numeral del: attempts.simps)
  also have "\<dots> = (Inr body, \<lparr>gets = 4, sleeps = [w1, w2, w3]\<rparr>)"
    using attempts_success [of server "\<lparr>gets = 3, sleeps = [w1, w2, w3]\<rparr>" r4 R body] assms by (simp add: eval_nat_numeral del: attempts.simps)
  finally show ?thesis .
qed

text \<open>
  Every 429 or 5xx response uses up one attempt: when all the responses are of these
  kinds (and each wait can be computed and slept), the loop has made one call and one sleep per
  attempt when it raises \<^verbatim>\<open>RuntimeError\<close>.
\<close>

lemma attempts_all_retriable:
  "(\<And>i. i < length as \<Longrightarrow> retriable R (server (gets st + i)) (as ! i)) \<Longrightarrow>
   \<exists>ws. length ws = length as
      \<and> attempts R server as st
        = (Inl RuntimeError, st\<lparr>gets := gets st + length as, sleeps := sleeps st @ ws\<rparr>)"
proof (induction as arbitrary: st)
  case Nil
  then show ?case by simp
next
  case (Cons a as)
  from Cons.prems [of 0] have r0: "retriable R (server (gets st)) a" by simp
  then obtain r where r: "server (gets st) = Response r"
    by (auto simp: retriable_def split: get_result.splits)
  from r0 r obtain w where
    step: "attempts R server (a # as) st
           = attempts R server as (st\<lparr>gets := gets st + 1, sleeps := sleeps st @ [w]\<rparr>)"
    by (auto simp: retriable_def Let_def sleep_def split: sum.splits)
  let ?st = "st\<lparr>gets := gets st + 1, sleeps := sleeps st @ [w]\<rparr>"
  have "\<And>i. i < length as \<Longrightarrow> retriable R (server (gets ?st + i)) (as ! i)"
    using Cons.prems [of "Suc _"] by simp
  from Cons.IH [of ?st, OF this] obtain ws where
    "length ws = length as"
    "attempts R server as ?st
       = (Inl RuntimeError, ?st\<lparr>gets := gets ?st + length as, sleeps := sleeps ?st @ ws\<rparr>)"
    by blast
  with step have "length (w # ws) = length (a # as)
      \<and> attempts R server (a # as) st
        = (Inl RuntimeError, st\<lparr>gets := gets st + length (a # as), sleeps := sleeps st @ (w # ws)\<rparr>)"
    by simp
  then show ?case by blast
qed

lemma superscript_two:
  "retry_wait cpython (Some [178]) 1 = Inl ValueError"
  by (simp add: retry_wait_def cpython_simps)

text \<open>
  Claim C7. Three 429 responses followed by a 200 JSON response, with five attempts
  allowed, should give the parsed body after exactly three sleeps, the wait being the
  \<^verbatim>\<open>Retry-After\<close> value when it is present and numeric and the backoff otherwise. The
  lemma \<open>request_json_three_429_then_200\<close> shows this whenever each of the three waits can
  be computed and slept. A wait cannot always be computed: \<^verbatim>\<open>str.isdigit\<close> accepts characters that \<^verbatim>\<open>int\<close> does
  not read, such as U+00B2 SUPERSCRIPT TWO, and on such a \<^verbatim>\<open>Retry-After\<close> value the
  fetcher raises \<^verbatim>\<open>ValueError\<close> at the first response, after one call and no sleep.
\<close>

theorem request_json_superscript_retry_after:
  "request_json cpython
     (\<lambda>k. if k < 3
          then Response \<lparr>status_code = 429, retry_after = Some [178], content_type = None,
                         json_body = None\<rparr>
          else Response \<lparr>status_code = 200, retry_after = None,
                         content_type = Some (lit ''application/json''), json_body = Some ()\<rparr>)
     5
   = (Inl ValueError, \<lparr>gets = 1, sleeps = []\<rparr>)"
  by (simp add: request_json_def upto_1_5 superscript_two Let_def)

text \<open>
  The same exchange with \<^verbatim>\<open>Retry-After: 7\<close> on the second response and none on the others.
\<close>

lemma request_json_plain_retry_after:
  "request_json cpython
     (\<lambda>k. if k < 3
          then Response \<lparr>status_code = 429, retry_after = (if k = 1 then Some (lit ''7'') else None),
                         content_type = None, json_body = None\<rparr>
          else Response \<lparr>status_code = 200, retry_after = None,
                         content_type = Some (lit ''application/json''), json_body = Some ()\<rparr>)
     5
   = (Inr (), \<lparr>gets = 4, sleeps = [2, 7, 8]\<rparr>)"
  by (simp add: request_json_def upto_1_5 retry_wait_def backoff_def cpython_simps Let_def lit_def
      or_else_def latin1_lower_def sleep_def)

text \<open>
  A numeric \<^verbatim>\<open>Retry-After\<close> too large for \<^verbatim>\<open>time.sleep\<close>: the exception of the sleep ends
  the fetch.
\<close>

lemma request_json_huge_retry_after:
  "request_json cpython
     (\<lambda>k. if k < 3
          then Response \<lparr>status_code = 429, retry_after = Some (lit ''99999999999999999999''),
                         content_type = None, json_body = None\<rparr>
          else Response \<lparr>status_code = 200, retry_after = None,
                         content_type = Some (lit ''application/json''), json_body = Some ()\<rparr>)
     5
   = (Inl OverflowError, \<lparr>gets = 1, sleeps = []\<rparr>)"
  by (simp add: request_json_def upto_1_5 retry_wait_def cpython_simps Let_def lit_def sleep_def)

section \<open>Properties of the Reddit fetch\<close>

subsection \<open>The classification of fetched posts\<close>

lemma post_of_child_classified:
  "post_of_child R d = Inr (Some p) \<Longrightarrow>
     is_trailer p = is_official_trailer R (title p)
   \<and> episode_code p = extract_episode_code R (title p)"
  by (auto simp: post_of_child_def Let_def split: option.splits if_splits)

lemma posts_of_children_classified:
  "posts_of_children R ds = Inr ps \<Longrightarrow>
     \<forall>p\<in>set ps. is_trailer p = is_official_trailer R (title p)
               \<and> episode_code p = extract_episode_code R (title p)"
proof (induction ds arbitrary: ps)
  case Nil
  then show ?case by simp
next
  case (Cons d ds)
  from Cons.prems obtain po qs where
    d: "post_of_child R d = Inr po" and ds: "posts_of_children R ds = Inr qs"
    and ps: "ps = (case po of None \<Rightarrow> qs | Some p \<Rightarrow> p # qs)"
    by (auto split: sum.splits)
  from Cons.IH [OF ds] have qs: "\<forall>p\<in>set qs. is_trailer p = is_official_trailer R (title p)
               \<and> episode_code p = extract_episode_code R (title p)" .
  show ?case
  proof (cases po)
    case None
    with ps qs show ?thesis by simp
  next
    case (Some p)
    with d have "is_trailer p = is_official_trailer R (title p)
               \<and> episode_code p = extract_episode_code R (title p)"
      using post_of_child_classified [of R d p] by simp
    with Some ps qs show ?thesis by simp
  qed
qed

lemma fetch_search_posts_classified:
  "fetch_search_posts cfg R net = Inr posts \<Longrightarrow>
     \<forall>p\<in>set posts. is_trailer p = is_official_trailer R (title p)
                  \<and> episode_code p = extract_episode_code R (title p)"
  by (auto simp: fetch_search_posts_def split: sum.splits dest: posts_of_children_classified)

lemma extract_no_code:
  "extract_episode_code cpython plain_title = None"
  "extract_episode_code cpython (lit ''Severance Official Trailer'') = None"
  by (simp_all add: extract_episode_code_cases regex_eval plain_title_def)

lemma post_of_child_examples:
  "post_of_child cpython (example_child ''h1'' plain_title)
     = Inr (Some (fetched_post ''h1'' plain_title True))"
  "post_of_child cpython (example_child ''s1'' (lit ''Severance Official Trailer''))
     = Inr (Some (fetched_post ''s1'' (lit ''Severance Official Trailer'') False))"
proof -
  have ne: "plain_title \<noteq> []" "lit ''Severance Official Trailer'' \<noteq> []" "lit ''h1'' \<noteq> []"
    "lit ''s1'' \<noteq> []"
    by (simp_all add: plain_title_def lit_def)
  show "post_of_child cpython (example_child ''h1'' plain_title)
     = Inr (Some (fetched_post ''h1'' plain_title True))"
    by (simp add: post_of_child_def example_child_def fetched_post_def safe_int_def py_int_def
        or_else_def ne extract_no_code trailer_examples)
  show "post_of_child cpython (example_child ''s1'' (lit ''Severance Official Trailer''))
     = Inr (Some (fetched_post ''s1'' (lit ''Severance Official Trailer'') False))"
    by (simp add: post_of_child_def example_child_def fetched_post_def safe_int_def py_int_def
        or_else_def ne extract_no_code trailer_examples)
qed

lemma json_content_type:
  "py_in (lit ''json'') (str_lower cpython (or_else (Some (lit ''application/json; charset=UTF-8'')) []))"
  by (simp add: or_else_def cpython_simps lit_def latin1_lower_def)

lemma query_examples:
  "param_q (search_request default_config) \<noteq> lit ''Severance''"
  "param_q (search_request (default_config\<lparr>QUERY := lit ''Severance''\<rparr>)) = lit ''Severance''"
  by (simp_all add: search_request_def default_config_def lit_def)

lemma request_json_examples:
  "fst (request_json cpython (example_net (search_request default_config)) 5)
     = Inr [example_child ''h1'' plain_title,
            example_child ''s1'' (lit ''Severance Official Trailer'')]"
  "fst (request_json cpython
          (example_net (search_request (default_config\<lparr>QUERY := lit ''Severance''\<rparr>))) 5)
     = Inr [example_child ''s1'' (lit ''Severance Official Trailer'')]"
  by (simp_all add: request_json_def upto_1_5 example_net_def json_content_type query_examples)

lemma fetch_examples:
  "fetch_search_posts default_config cpython example_net
     = Inr [fetched_post ''h1'' plain_title True,
            fetched_post ''s1'' (lit ''Severance Official Trailer'') False]"
  "fetch_search_posts (default_config\<lparr>QUERY := lit ''Severance''\<rparr>) cpython example_net
     = Inr [fetched_post ''s1'' (lit ''Severance Official Trailer'') False]"
  by (simp_all add: fetch_search_posts_def request_json_examples post_of_child_examples)

text \<open>
  Claim C10. The trailer flag of every post that \<^verbatim>\<open>fetch_search_posts\<close> returns is
  \<^verbatim>\<open>is_official_trailer\<close> of the title of the post. Two fetches whose configurations
  differ only in \<^verbatim>\<open>QUERY\<close>, against the same network, give posts with equal titles equal
  trailer flags. The classification of a title tests the fixed phrase
  \<open>heated rivalry\<close>, not the configured query.
\<close>

theorem trailer_flag_independent_of_query:
  "(fetch_search_posts cfg R net = Inr posts \<longrightarrow>
      (\<forall>p\<in>set posts. is_trailer p = is_official_trailer R (title p)))
   \<and> (fetch_search_posts cfg R net = Inr posts
      \<and> fetch_search_posts (cfg\<lparr>QUERY := q\<rparr>) R net = Inr posts' \<longrightarrow>
        (\<forall>p\<in>set posts. \<forall>p'\<in>set posts'. title p = title p' \<longrightarrow> is_trailer p = is_trailer p'))
   \<and> (is_official_trailer R t \<longleftrightarrow>
         py_in (lit ''trailer'') (str_lower R t)
       \<and> py_in (lit ''official'') (str_lower R t)
       \<and> py_in (lit ''heated rivalry'') (str_lower R t))"
proof (intro conjI impI)
  assume "fetch_search_posts cfg R net = Inr posts"
  then show "\<forall>p\<in>set posts. is_trailer p = is_official_trailer R (title p)"
    using fetch_search_posts_classified [of cfg R net posts] by blast
next
  assume a: "fetch_search_posts cfg R net = Inr posts
      \<and> fetch_search_posts (cfg\<lparr>QUERY := q\<rparr>) R net = Inr posts'"
  then have "\<forall>p\<in>set posts. is_trailer p = is_official_trailer R (title p)"
    using fetch_search_posts_classified [of cfg R net posts] by blast
  moreover from a have "\<forall>p\<in>set posts'. is_trailer p = is_official_trailer R (title p)"
    using fetch_search_posts_classified [of "cfg\<lparr>QUERY := q\<rparr>" R net posts'] by blast
  ultimately show "\<forall>p\<in>set posts. \<forall>p'\<in>set posts'. title p = title p' \<longrightarrow> is_trailer p = is_trailer p'"
    by simp
next
  show "is_official_trailer R t \<longleftrightarrow>
         py_in (lit ''trailer'') (str_lower R t)
       \<and> py_in (lit ''official'') (str_lower R t)
       \<and> py_in (lit ''heated rivalry'') (str_lower R t)"
    by (simp add: is_official_trailer_def Let_def)
qed

theorem trailer_flag_independent_of_query_witness:
  "fetch_search_posts default_config cpython example_net
     = Inr [fetched_post ''h1'' plain_title True,
            fetched_post ''s1'' (lit ''Severance Official Trailer'') False]
   \<and> fetch_search_posts (default_config\<lparr>QUERY := lit ''Severance''\<rparr>) cpython example_net
     = Inr [fetched_post ''s1'' (lit ''Severance Official Trailer'') False]
   \<and> is_official_trailer cpython plain_title
   \<and> \<not> is_official_trailer cpython (lit ''Severance Official Trailer'')
   \<and> py_in (lit ''heated rivalry'') (str_lower cpython plain_title)"
  using trailer_flag_independent_of_query [where cfg = default_config and R = cpython
      and net = example_net and q = "lit ''Severance''" and t = plain_title
      and posts = "[fetched_post ''h1'' plain_title True,
            fetched_post ''s1'' (lit ''Severance Official Trailer'') False]"
      and posts' = "[fetched_post ''s1'' (lit ''Severance Official Trailer'') False]"]
  by (simp add: fetch_examples fetched_post_def lower_examples needles_in_examples)

section \<open>Properties of the selection logic\<close>

subsection \<open>Sorting\<close>

lemma set_py_sorted_reverse: "set (py_sorted_reverse f xs) = set xs"
  by (simp add: py_sorted_reverse_def)

lemma length_py_sorted_reverse: "length (py_sorted_reverse f xs) = length xs"
  by (simp add: py_sorted_reverse_def)

lemma py_sorted_reverse_descending:
  "sorted_wrt (\<lambda>a b. f b \<le> f a) (py_sorted_reverse f xs)"
proof -
  have "sorted (map f (sort_key f (rev xs)))"
    by (rule sorted_sort_key)
  then have "sorted_wrt (\<lambda>a b. f a \<le> f b) (sort_key f (rev xs))"
    by (simp add: sorted_map)
  then show ?thesis
    by (simp add: py_sorted_reverse_def sorted_wrt_rev)
qed

lemma py_sorted_reverse_stable:
  "filter (\<lambda>y. f y = k) (py_sorted_reverse f xs) = filter (\<lambda>y. f y = k) xs"
proof -
  have "filter (\<lambda>y. f y = k) (sort_key f (rev xs)) = filter (\<lambda>y. f y = k) (rev xs)"
    by (rule sort_key_stable)
  then have "rev (filter (\<lambda>y. f y = k) (sort_key f (rev xs))) = filter (\<lambda>y. f y = k) xs"
    by (simp add: rev_filter)
  then show ?thesis
    by (simp add: py_sorted_reverse_def rev_filter)
qed

lemma find_split:
  "find P xs = Some x \<Longrightarrow> \<exists>pre suf. xs = pre @ x # suf \<and> P x \<and> (\<forall>q\<in>set pre. \<not> P q)"
proof (induction xs)
  case Nil
  then show ?case by simp
next
  case (Cons a xs)
  show ?case
  proof (cases "P a")
    case True
    with Cons.prems have "a = x" by simp
    with True have "a # xs = [] @ x # xs \<and> P x \<and> (\<forall>q\<in>set []. \<not> P q)" by simp
    then show ?thesis by blast
  next
    case False
    with Cons.prems have "find P xs = Some x" by simp
    from Cons.IH [OF this] obtain pre suf
      where "xs = pre @ x # suf" "P x" "\<forall>q\<in>set pre. \<not> P q" by blast
    with False have "a # xs = (a # pre) @ x # suf \<and> P x \<and> (\<forall>q\<in>set (a # pre). \<not> P q)"
      by simp
    then show ?thesis by blast
  qed
qed

lemma find_hd_filter: "filter P xs \<noteq> [] \<Longrightarrow> find P xs = Some (hd (filter P xs))"
  by (induction xs) auto

lemma hd_py_sorted_reverse_max:
  assumes "xs \<noteq> []"
  shows "\<forall>x\<in>set xs. f x \<le> f (hd (py_sorted_reverse f xs))"
proof -
  let ?zs = "py_sorted_reverse f xs"
  from assms have ne: "?zs \<noteq> []"
    using length_py_sorted_reverse [of f xs] by auto
  then obtain h t where zs: "?zs = h # t" by (cases ?zs) auto
  have "sorted_wrt (\<lambda>a b. f b \<le> f a) (h # t)"
    using py_sorted_reverse_descending [of f xs] zs by simp
  then have "\<forall>x\<in>set (h # t). f x \<le> f h" by auto
  moreover have "set xs = set (h # t)"
    using zs set_py_sorted_reverse [of f xs] by simp
  ultimately show ?thesis
    using zs by simp
qed

lemma hd_py_sorted_reverse_first:
  assumes "xs \<noteq> []"
  shows "find (\<lambda>x. f x = f (hd (py_sorted_reverse f xs))) xs = Some (hd (py_sorted_reverse f xs))"
proof -
  let ?zs = "py_sorted_reverse f xs"
  let ?P = "\<lambda>x. f x = f (hd ?zs)"
  from assms have ne: "?zs \<noteq> []"
    using length_py_sorted_reverse [of f xs] by auto
  then obtain h t where zs: "?zs = h # t" by (cases ?zs) auto
  have "filter ?P ?zs = filter ?P xs"
    by (rule py_sorted_reverse_stable)
  moreover have "hd (filter ?P ?zs) = h" "filter ?P ?zs \<noteq> []"
    using zs by simp_all
  ultimately have "filter ?P xs \<noteq> []" "hd (filter ?P xs) = h" by simp_all
  then show ?thesis
    using find_hd_filter [of ?P xs] zs by simp
qed


lemma find_filter: "find P (filter Q xs) = find (\<lambda>x. Q x \<and> P x) xs"
  by (induction xs) auto

lemma hd_py_sorted_reverse_in_set:
  "xs \<noteq> [] \<Longrightarrow> hd (py_sorted_reverse f xs) \<in> set xs"
proof -
  assume "xs \<noteq> []"
  then have "py_sorted_reverse f xs \<noteq> []"
    using length_py_sorted_reverse [of f xs] by auto
  then have "hd (py_sorted_reverse f xs) \<in> set (py_sorted_reverse f xs)"
    by (rule hd_in_set)
  then show ?thesis by (simp add: set_py_sorted_reverse)
qed

text \<open>
  Claim C6. \<^verbatim>\<open>pick_trailer\<close> returns nothing exactly when no post has the trailer flag;
  when exactly one post has it, that post is returned, whatever its comment count;
  a returned post is a trailer whose \<^verbatim>\<open>num_comments\<close> is the largest among the trailers,
  and every trailer before it in the input has strictly fewer comments, so among
  trailers that tie on the maximum the first in input order wins.
\<close>

theorem pick_trailer_spec:
  "((pick_trailer posts = None) = (\<forall>q\<in>set posts. \<not> is_trailer q))
   \<and> (\<forall>p. filter is_trailer posts = [p] \<longrightarrow> pick_trailer posts = Some p)
   \<and> (\<forall>p. pick_trailer posts = Some p \<longrightarrow>
         is_trailer p
       \<and> (\<forall>q\<in>set posts. is_trailer q \<longrightarrow> num_comments q \<le> num_comments p)
       \<and> (\<exists>pre suf. posts = pre @ p # suf
             \<and> (\<forall>q\<in>set pre. is_trailer q \<longrightarrow> num_comments q < num_comments p)))"
proof (intro conjI allI impI)
  show "(pick_trailer posts = None) = (\<forall>q\<in>set posts. \<not> is_trailer q)"
    by (simp add: pick_trailer_def Let_def filter_empty_conv)
next
  fix p assume "filter is_trailer posts = [p]"
  then show "pick_trailer posts = Some p"
    by (simp add: pick_trailer_def Let_def py_sorted_reverse_def)
next
  fix p assume sel: "pick_trailer posts = Some p"
  let ?ts = "filter is_trailer posts"
  from sel have ne: "?ts \<noteq> []" and p: "p = hd (py_sorted_reverse num_comments ?ts)"
    by (auto simp: pick_trailer_def Let_def split: if_splits)
  from ne p have "p \<in> set ?ts"
    using hd_py_sorted_reverse_in_set [of ?ts num_comments] by simp
  then show "is_trailer p" by simp
  have max: "\<forall>q\<in>set ?ts. num_comments q \<le> num_comments p"
    using hd_py_sorted_reverse_max [OF ne, of num_comments] p by simp
  then show "\<forall>q\<in>set posts. is_trailer q \<longrightarrow> num_comments q \<le> num_comments p"
    by simp
  have "find (\<lambda>x. num_comments x = num_comments p) ?ts = Some p"
    using hd_py_sorted_reverse_first [OF ne, of num_comments] p by simp
  then have "find (\<lambda>x. is_trailer x \<and> num_comments x = num_comments p) posts = Some p"
    by (simp add: find_filter)
  from find_split [OF this] obtain pre suf where
    split: "posts = pre @ p # suf"
    and first: "\<forall>q\<in>set pre. \<not> (is_trailer q \<and> num_comments q = num_comments p)"
    by blast
  have "\<forall>q\<in>set pre. is_trailer q \<longrightarrow> num_comments q < num_comments p"
  proof (intro ballI impI)
    fix q assume q: "q \<in> set pre" "is_trailer q"
    with split have "q \<in> set ?ts" by simp
    with max have "num_comments q \<le> num_comments p" by blast
    moreover from first q have "num_comments q \<noteq> num_comments p" by blast
    ultimately show "num_comments q < num_comments p" by simp
  qed
  with split show "\<exists>pre suf. posts = pre @ p # suf
      \<and> (\<forall>q\<in>set pre. is_trailer q \<longrightarrow> num_comments q < num_comments p)"
    by blast
qed

theorem pick_trailer_spec_witness:
  "pick_trailer
     [example_post ''a'' 5 1 None True, example_post ''b'' 9 1 None True,
      example_post ''c'' 100 1 None False, example_post ''d'' 9 7 None True]
   = Some (example_post ''b'' 9 1 None True)
   \<and> (\<exists>pre suf.
        [example_post ''a'' 5 1 None True, example_post ''b'' 9 1 None True,
         example_post ''c'' 100 1 None False, example_post ''d'' 9 7 None True]
        = pre @ example_post ''b'' 9 1 None True # suf
      \<and> (\<forall>q\<in>set pre. is_trailer q \<longrightarrow> num_comments q < 9))"
proof -
  let ?posts = "[example_post ''a'' 5 1 None True, example_post ''b'' 9 1 None True,
      example_post ''c'' 100 1 None False, example_post ''d'' 9 7 None True]"
  have sel: "pick_trailer ?posts = Some (example_post ''b'' 9 1 None True)"
    by (simp add: pick_trailer_def py_sorted_reverse_def example_post_simps)
  with pick_trailer_spec [of ?posts] show ?thesis
    by (simp add: example_post_simps)
qed

lemma slice_to_take: "\<exists>k. slice_to xs n = take k xs"
  by (auto simp: slice_to_def)

lemma sorted_wrt_take_drop:
  "sorted_wrt R xs \<Longrightarrow> \<forall>p\<in>set (take k xs). \<forall>q\<in>set (drop k xs). R p q"
proof -
  assume "sorted_wrt R xs"
  then have "sorted_wrt R (take k xs @ drop k xs)" by simp
  then show ?thesis unfolding sorted_wrt_append by blast
qed

lemma pick_other_posts_prefix:
  "\<exists>k. pick_other_posts posts n = take k (py_sorted_reverse other_key (other_candidates posts))"
  by (simp add: pick_other_posts_def Let_def slice_to_take)

text \<open>
  Claim C3. For every list of posts and every \<open>n\<close>, \<^verbatim>\<open>pick_other_posts\<close> returns only
  posts of the input whose episode code is false (absent or empty) and whose trailer
  flag is not set, however many comments an excluded post has; where no post carries an
  empty episode code (the classifier never produces one) their episode code is absent.
  The result is sorted descending by the pair \<open>(num_comments, score)\<close>; for \<open>n \<ge> 0\<close> it
  is the first \<open>n\<close> posts of the sorted candidates, all of them when fewer than \<open>n\<close>
  qualify (for a negative \<open>n\<close> the slice drops posts from the end and is still a prefix);
  every candidate left out ranks no higher than every post returned; and no post of
  \<^verbatim>\<open>episode_posts\<close> is in the result.
\<close>

theorem pick_other_posts_spec:
  "(\<forall>p\<in>set (pick_other_posts posts n).
       p \<in> set posts \<and> \<not> truthy (episode_code p) \<and> \<not> is_trailer p)
   \<and> ((\<forall>p\<in>set posts. episode_code p \<noteq> Some []) \<longrightarrow>
        (\<forall>p\<in>set (pick_other_posts posts n). episode_code p = None))
   \<and> sorted_wrt (\<lambda>p q. other_key q \<le> other_key p) (pick_other_posts posts n)
   \<and> (0 \<le> n \<longrightarrow>
        pick_other_posts posts n
          = take (nat n) (py_sorted_reverse other_key (other_candidates posts))
      \<and> length (pick_other_posts posts n) = min (nat n) (length (other_candidates posts)))
   \<and> (int (length (other_candidates posts)) \<le> n \<longrightarrow>
        set (pick_other_posts posts n) = set (other_candidates posts))
   \<and> (\<forall>p\<in>set (pick_other_posts posts n). \<forall>q\<in>set (other_candidates posts).
        q \<notin> set (pick_other_posts posts n) \<longrightarrow> other_key q \<le> other_key p)
   \<and> set (pick_other_posts posts n) \<inter> set (episode_posts posts) = {}"
proof -
  let ?cands = "other_candidates posts"
  let ?zs = "py_sorted_reverse other_key ?cands"
  let ?out = "pick_other_posts posts n"
  obtain k where out: "?out = take k ?zs"
    using pick_other_posts_prefix [of posts n] by blast
  have sub: "set ?out \<subseteq> set ?cands"
    using set_take_subset [of k ?zs] by (simp add: out set_py_sorted_reverse)
  have c1: "\<forall>p\<in>set ?out. p \<in> set posts \<and> \<not> truthy (episode_code p) \<and> \<not> is_trailer p"
    using sub by auto
  have c2: "(\<forall>p\<in>set posts. episode_code p \<noteq> Some []) \<longrightarrow> (\<forall>p\<in>set ?out. episode_code p = None)"
  proof (intro impI ballI)
    fix p assume wf: "\<forall>p\<in>set posts. episode_code p \<noteq> Some []" and p: "p \<in> set ?out"
    from c1 p have "p \<in> set posts" "\<not> truthy (episode_code p)" by blast+
    with wf show "episode_code p = None"
      by (cases "episode_code p") (auto simp: truthy_def)
  qed
  have desc: "sorted_wrt (\<lambda>p q. other_key q \<le> other_key p) ?zs"
    by (rule py_sorted_reverse_descending)
  have c3: "sorted_wrt (\<lambda>p q. other_key q \<le> other_key p) ?out"
    unfolding out using desc by (rule sorted_wrt_take)
  have c4: "0 \<le> n \<longrightarrow> ?out = take (nat n) ?zs \<and> length ?out = min (nat n) (length ?cands)"
    by (auto simp: pick_other_posts_def Let_def slice_to_def length_py_sorted_reverse)
  have c5: "int (length ?cands) \<le> n \<longrightarrow> set ?out = set ?cands"
    by (auto simp: pick_other_posts_def Let_def slice_to_def length_py_sorted_reverse
        set_py_sorted_reverse)
  have c6: "\<forall>p\<in>set ?out. \<forall>q\<in>set ?cands. q \<notin> set ?out \<longrightarrow> other_key q \<le> other_key p"
  proof (intro ballI impI)
    fix p q assume p: "p \<in> set ?out" and q: "q \<in> set ?cands" and nq: "q \<notin> set ?out"
    have "set ?zs = set (take k ?zs) \<union> set (drop k ?zs)"
      by (metis append_take_drop_id set_append)
    moreover have "q \<in> set ?zs"
      using q by (simp only: set_py_sorted_reverse)
    ultimately have "q \<in> set (take k ?zs) \<union> set (drop k ?zs)"
      by blast
    with nq out have "q \<in> set (drop k ?zs)" by simp
    with sorted_wrt_take_drop [OF desc, of k] p out show "other_key q \<le> other_key p"
      by auto
  qed
  have c7: "set ?out \<inter> set (episode_posts posts) = {}"
    using c1 by (auto simp: episode_posts_def py_sorted_def Let_def)
  from c1 c2 c3 c4 c5 c6 c7 show ?thesis by blast
qed

theorem pick_other_posts_spec_witness:
  "pick_other_posts
     [example_post ''a'' 900 1 (Some (lit ''1x01'')) False, example_post ''b'' 800 1 None True,
      example_post ''c'' 7 2 None False, example_post ''d'' 9 1 None False,
      example_post ''e'' 7 5 None False, example_post ''f'' 3 3 None False] 3
   = [example_post ''d'' 9 1 None False, example_post ''e'' 7 5 None False,
      example_post ''c'' 7 2 None False]
   \<and> set (pick_other_posts
        [example_post ''a'' 900 1 (Some (lit ''1x01'')) False, example_post ''b'' 800 1 None True,
         example_post ''c'' 7 2 None False, example_post ''d'' 9 1 None False,
         example_post ''e'' 7 5 None False, example_post ''f'' 3 3 None False] 3)
     \<inter> set (episode_posts
        [example_post ''a'' 900 1 (Some (lit ''1x01'')) False, example_post ''b'' 800 1 None True,
         example_post ''c'' 7 2 None False, example_post ''d'' 9 1 None False,
         example_post ''e'' 7 5 None False, example_post ''f'' 3 3 None False]) = {}"
proof -
  let ?posts = "[example_post ''a'' 900 1 (Some (lit ''1x01'')) False, example_post ''b'' 800 1 None True,
      example_post ''c'' 7 2 None False, example_post ''d'' 9 1 None False,
      example_post ''e'' 7 5 None False, example_post ''f'' 3 3 None False]"
  have cands: "other_candidates ?posts
      = [example_post ''c'' 7 2 None False, example_post ''d'' 9 1 None False,
         example_post ''e'' 7 5 None False, example_post ''f'' 3 3 None False]"
    by (simp add: example_post_simps truthy_def lit_def)
  have sorted: "py_sorted_reverse other_key
       [example_post ''c'' 7 2 None False, example_post ''d'' 9 1 None False,
        example_post ''e'' 7 5 None False, example_post ''f'' 3 3 None False]
      = [example_post ''d'' 9 1 None False, example_post ''e'' 7 5 None False,
         example_post ''c'' 7 2 None False, example_post ''f'' 3 3 None False]"
    by (simp add: py_sorted_reverse_def example_post_simps)
  have n: "(0::int) \<le> 3" by simp
  from pick_other_posts_spec [of ?posts 3] n
  have "pick_other_posts ?posts 3 = take (nat 3) (py_sorted_reverse other_key (other_candidates ?posts))"
    and "set (pick_other_posts ?posts 3) \<inter> set (episode_posts ?posts) = {}"
    by blast+
  then show ?thesis
    by (simp only: cands sorted) simp
qed

section \<open>Properties of the series aggregation\<close>

subsection \<open>Grouping\<close>

lemma map_of_setdefault_append:
  "map_of (setdefault_append k v m) k' =
     (if k' = k then Some ((case map_of m k of None \<Rightarrow> [] | Some vs \<Rightarrow> vs) @ [v])
      else map_of m k')"
  by (induction k v m rule: setdefault_append.induct) auto

lemma keys_setdefault_append:
  "map fst (setdefault_append k v m) = (if k \<in> fst ` set m then map fst m else map fst m @ [k])"
  by (induction k v m rule: setdefault_append.induct) (auto simp: image_iff)

lemma distinct_setdefault_append:
  "distinct (map fst m) \<Longrightarrow> distinct (map fst (setdefault_append k v m))"
  by (simp add: keys_setdefault_append)

lemma points_of_Nil: "points_of R k [] = []"
  by (simp add: points_of_def map_filter_simps)

lemma points_of_Cons:
  "points_of R k (row # rows) =
     (case parse_dt R (row_snapshot_utc row) of
        None \<Rightarrow> points_of R k rows
      | Some dt \<Rightarrow>
          if row_post_name row = k
          then (dt, safe_int R (PStr (row_num_comments row)) 0, row) # points_of R k rows
          else points_of R k rows)"
  by (simp add: points_of_def map_filter_simps split: option.splits)

lemma map_of_by_post_step:
  "map_of (by_post_step R row m) k =
     (case parse_dt R (row_snapshot_utc row) of
        None \<Rightarrow> map_of m k
      | Some dt \<Rightarrow>
          if row_post_name row = k
          then Some ((case map_of m k of None \<Rightarrow> [] | Some vs \<Rightarrow> vs)
                     @ [(dt, safe_int R (PStr (row_num_comments row)) 0, row)])
          else map_of m k)"
  by (auto simp: by_post_step_def map_of_setdefault_append split: option.splits)

lemma map_of_fold_by_post_step:
  "map_of (fold (by_post_step R) rows m) k =
     (case map_of m k of
        None \<Rightarrow> if points_of R k rows = [] then None else Some (points_of R k rows)
      | Some vs \<Rightarrow> Some (vs @ points_of R k rows))"
proof (induction rows arbitrary: m)
  case Nil
  then show ?case by (simp add: points_of_Nil split: option.splits)
next
  case (Cons row rows)
  have "map_of (fold (by_post_step R) (row # rows) m) k
        = map_of (fold (by_post_step R) rows (by_post_step R row m)) k"
    by simp
  also have "\<dots> =
     (case map_of (by_post_step R row m) k of
        None \<Rightarrow> if points_of R k rows = [] then None else Some (points_of R k rows)
      | Some vs \<Rightarrow> Some (vs @ points_of R k rows))"
    by (rule Cons.IH)
  also have "\<dots> =
     (case map_of m k of
        None \<Rightarrow> if points_of R k (row # rows) = [] then None
                else Some (points_of R k (row # rows))
      | Some vs \<Rightarrow> Some (vs @ points_of R k (row # rows)))"
    by (simp add: map_of_by_post_step points_of_Cons split: option.splits)
  finally show ?case .
qed

lemma map_of_by_post:
  "map_of (by_post R rows) k =
     (if points_of R k rows = [] then None else Some (points_of R k rows))"
  by (simp add: by_post_def map_of_fold_by_post_step)

lemma distinct_fold_by_post_step:
  "distinct (map fst m) \<Longrightarrow> distinct (map fst (fold (by_post_step R) rows m))"
proof (induction rows arbitrary: m)
  case Nil
  then show ?case by simp
next
  case (Cons row rows)
  have "distinct (map fst (by_post_step R row m))"
    using Cons.prems
    by (auto simp: by_post_step_def distinct_setdefault_append split: option.splits)
  then show ?case by (simp add: Cons.IH)
qed

lemma distinct_by_post: "distinct (map fst (by_post R rows))"
  by (simp add: by_post_def distinct_fold_by_post_step)

lemma by_post_member:
  "(k, s) \<in> set (by_post R rows) \<longleftrightarrow> s = points_of R k rows \<and> s \<noteq> []"
proof -
  have "(k, s) \<in> set (by_post R rows) \<longleftrightarrow> map_of (by_post R rows) k = Some s"
    using distinct_by_post [of R rows] by simp
  then show ?thesis by (auto simp: map_of_by_post)
qed

subsection \<open>Sorting the series\<close>

lemma sort_all_Inr:
  "sort_all m = Inr m' \<longleftrightarrow>
     (\<forall>(k, s)\<in>set m. comparable s) \<and> m' = map (\<lambda>(k, s). (k, sort_key point_time s)) m"
proof (induction m arbitrary: m' rule: sort_all.induct)
  case 1
  then show ?case by auto
next
  case (2 k series m)
  show ?case
  proof (cases "comparable series")
    case False
    then show ?thesis by (simp add: sort_series_def)
  next
    case True
    then have ss: "sort_series series = Inr (sort_key point_time series)"
      by (simp add: sort_series_def)
    show ?thesis
    proof (cases "sort_all m")
      case (Inl e)
      with 2 [OF ss] ss show ?thesis by auto
    next
      case (Inr r)
      with 2 [OF ss] ss True show ?thesis by auto
    qed
  qed
qed

lemma sort_all_Inl:
  "sort_all m = Inl e \<Longrightarrow> e = TypeError \<and> (\<exists>(k, s)\<in>set m. \<not> comparable s)"
proof (induction m rule: sort_all.induct)
  case 1
  then show ?case by simp
next
  case (2 k series m)
  then show ?case
    by (auto simp: sort_series_def split: if_splits sum.splits)
qed

lemma hd_sort_key_least:
  assumes "xs \<noteq> []"
  shows "find (\<lambda>x. \<forall>y\<in>set xs. f x \<le> f y) xs = Some (hd (sort_key f xs))"
proof -
  let ?zs = "sort_key f xs"
  from assms have "?zs \<noteq> []"
    using length_sort [of f xs] by (metis length_0_conv)
  then obtain h t where zs: "?zs = h # t" by (cases ?zs) auto
  have "sorted (map f (h # t))"
    using sorted_sort_key [of f xs] zs by simp
  then have least: "\<forall>y\<in>set (h # t). f h \<le> f y" by auto
  have set: "set xs = set (h # t)"
    using set_sort [of f xs] zs by simp
  have "find (\<lambda>x. \<forall>y\<in>set xs. f x \<le> f y) xs = find (\<lambda>x. f x = f h) xs"
  proof (rule find_cong [OF refl])
    fix x assume x: "x \<in> set xs"
    show "(\<forall>y\<in>set xs. f x \<le> f y) = (f x = f h)"
    proof
      assume "\<forall>y\<in>set xs. f x \<le> f y"
      then have "f x \<le> f h" using set by simp
      moreover have "f h \<le> f x" using least x set by blast
      ultimately show "f x = f h" by simp
    next
      assume "f x = f h"
      with least set show "\<forall>y\<in>set xs. f x \<le> f y" by simp
    qed
  qed
  moreover have "filter (\<lambda>y. f y = f h) ?zs = filter (\<lambda>y. f y = f h) xs"
    by (rule sort_key_stable)
  then have "filter (\<lambda>y. f y = f h) xs \<noteq> []" "hd (filter (\<lambda>y. f y = f h) xs) = h"
    using zs by (simp_all flip: \<open>filter (\<lambda>y. f y = f h) ?zs = filter (\<lambda>y. f y = f h) xs\<close>)
  then have "find (\<lambda>x. f x = f h) xs = Some h"
    using find_hd_filter [of "\<lambda>x. f x = f h" xs] by simp
  ultimately show ?thesis using zs by simp
qed

lemma earliest_point_sorted:
  "pts \<noteq> [] \<Longrightarrow> earliest_point pts = Some (hd (sort_key point_time pts))"
  by (simp add: earliest_point_def hd_sort_key_least)

subsection \<open>The loaded series\<close>

lemma load_series_Inr:
  "load_series R rows = Inr g \<longleftrightarrow>
     (\<forall>(k, s)\<in>set (by_post R rows). comparable s)
     \<and> g = map (\<lambda>(k, s). (k, sort_key point_time s)) (by_post R rows)"
  by (simp add: load_series_def sort_all_Inr)

lemma comparable_groups:
  "(\<forall>(k, s)\<in>set (by_post R rows). comparable s) \<longleftrightarrow> (\<forall>k. comparable (points_of R k rows))"
proof
  assume "\<forall>(k, s)\<in>set (by_post R rows). comparable s"
  then have a: "\<And>k s. (k, s) \<in> set (by_post R rows) \<Longrightarrow> comparable s" by blast
  show "\<forall>k. comparable (points_of R k rows)"
  proof
    fix k
    show "comparable (points_of R k rows)"
    proof (cases "points_of R k rows = []")
      case True
      then show ?thesis by (simp add: comparable_def)
    next
      case False
      then have "(k, points_of R k rows) \<in> set (by_post R rows)"
        by (simp add: by_post_member)
      then show ?thesis by (rule a)
    qed
  qed
next
  assume "\<forall>k. comparable (points_of R k rows)"
  then show "\<forall>(k, s)\<in>set (by_post R rows). comparable s"
    by (auto simp: by_post_member)
qed

lemma map_of_sorted_groups:
  "map_of (map (\<lambda>(k, s). (k, sort_key point_time s)) (by_post R rows)) k =
     (if points_of R k rows = [] then None else Some (sort_key point_time (points_of R k rows)))"
proof -
  have "map_of (map (\<lambda>(k, s). (k, sort_key point_time s)) (by_post R rows)) k
        = map_option (sort_key point_time) (map_of (by_post R rows) k)"
    by (simp add: map_of_map)
  then show ?thesis by (simp add: map_of_by_post)
qed


text \<open>
  Where the sort does not raise, that is, on a history log in which the times of each
  post that parse are all offset-aware or all naive, the aggregator returns one group per
  \<^verbatim>\<open>post_name\<close> that has a row with a parsable time: the points of these rows, the rows
  with an unparsable time dropped, sorted ascending (and stably) by snapshot time,
  whatever their order in the file. In particular three rows of one post appended in
  the order \<open>t2, t1, t3\<close> with \<open>t1 < t2 < t3\<close> give the series \<open>(t1, t2, t3)\<close>.
\<close>

lemma load_series_comparable:
  "((\<forall>k. comparable (points_of R k rows)) \<longrightarrow>
      (\<exists>g. load_series R rows = Inr g
         \<and> distinct (map fst g)
         \<and> (\<forall>k. map_of g k =
               (if points_of R k rows = [] then None
                else Some (sort_key point_time (points_of R k rows))))
         \<and> (\<forall>(k, s)\<in>set g. sorted (map point_time s))))
   \<and> (\<forall>k r1 r2 r3 t1 t2 t3.
         rows = [r2, r1, r3]
       \<and> row_post_name r1 = k \<and> row_post_name r2 = k \<and> row_post_name r3 = k
       \<and> parse_dt R (row_snapshot_utc r1) = Some (Aware t1)
       \<and> parse_dt R (row_snapshot_utc r2) = Some (Aware t2)
       \<and> parse_dt R (row_snapshot_utc r3) = Some (Aware t3)
       \<and> t1 < t2 \<and> t2 < t3 \<longrightarrow>
         load_series R rows =
           Inr [(k, [(Aware t1, safe_int R (PStr (row_num_comments r1)) 0, r1),
                     (Aware t2, safe_int R (PStr (row_num_comments r2)) 0, r2),
                     (Aware t3, safe_int R (PStr (row_num_comments r3)) 0, r3)])])"
proof (intro conjI impI allI)
  assume cmp: "\<forall>k. comparable (points_of R k rows)"
  let ?g = "map (\<lambda>(k, s). (k, sort_key point_time s)) (by_post R rows)"
  have ld: "load_series R rows = Inr ?g"
    using cmp by (simp add: load_series_Inr comparable_groups)
  have "map fst ?g = map fst (by_post R rows)"
    by (simp add: case_prod_unfold comp_def)
  then have d: "distinct (map fst ?g)"
    by (simp only: distinct_by_post)
  have m: "\<forall>k. map_of ?g k =
      (if points_of R k rows = [] then None else Some (sort_key point_time (points_of R k rows)))"
    by (simp add: map_of_sorted_groups)
  have s: "\<forall>(k, s)\<in>set ?g. sorted (map point_time s)"
    by (auto simp: sorted_sort_key)
  from ld d m s show "\<exists>g. load_series R rows = Inr g
         \<and> distinct (map fst g)
         \<and> (\<forall>k. map_of g k =
               (if points_of R k rows = [] then None
                else Some (sort_key point_time (points_of R k rows))))
         \<and> (\<forall>(k, s)\<in>set g. sorted (map point_time s))"
    by blast
next
  fix k r1 r2 r3 t1 t2 t3
  assume a: "rows = [r2, r1, r3]
       \<and> row_post_name r1 = k \<and> row_post_name r2 = k \<and> row_post_name r3 = k
       \<and> parse_dt R (row_snapshot_utc r1) = Some (Aware t1)
       \<and> parse_dt R (row_snapshot_utc r2) = Some (Aware t2)
       \<and> parse_dt R (row_snapshot_utc r3) = Some (Aware t3)
       \<and> t1 < t2 \<and> t2 < t3"
  then have "by_post R rows =
      [(k, [(Aware t2, safe_int R (PStr (row_num_comments r2)) 0, r2),
            (Aware t1, safe_int R (PStr (row_num_comments r1)) 0, r1),
            (Aware t3, safe_int R (PStr (row_num_comments r3)) 0, r3)])]"
    by (simp add: by_post_def by_post_step_def)
  with a show "load_series R rows =
           Inr [(k, [(Aware t1, safe_int R (PStr (row_num_comments r1)) 0, r1),
                     (Aware t2, safe_int R (PStr (row_num_comments r2)) 0, r2),
                     (Aware t3, safe_int R (PStr (row_num_comments r3)) 0, r3)])]"
    by (simp add: load_series_def sort_series_def comparable_def is_aware_def point_time_def
        instant_def)
qed

lemma load_series_three_rows:
  "load_series cpython
     [example_row ''2024-01-02T00:00:00+00:00'' ''t3_abc'' ''0'',
      example_row ''2024-01-01T00:00:00+00:00'' ''t3_abc'' ''0'',
      example_row ''2024-01-03T00:00:00+00:00'' ''t3_abc'' ''0'']
   = Inr [(lit ''t3_abc'',
           [(Aware 1704067200000000, 0, example_row ''2024-01-01T00:00:00+00:00'' ''t3_abc'' ''0''),
            (Aware 1704153600000000, 0, example_row ''2024-01-02T00:00:00+00:00'' ''t3_abc'' ''0''),
            (Aware 1704240000000000, 0, example_row ''2024-01-03T00:00:00+00:00'' ''t3_abc'' ''0'')])]"
proof -
  let ?r1 = "example_row ''2024-01-01T00:00:00+00:00'' ''t3_abc'' ''0''"
  let ?r2 = "example_row ''2024-01-02T00:00:00+00:00'' ''t3_abc'' ''0''"
  let ?r3 = "example_row ''2024-01-03T00:00:00+00:00'' ''t3_abc'' ''0''"
  have hyp: "[?r2, ?r1, ?r3] = [?r2, ?r1, ?r3]
       \<and> row_post_name ?r1 = lit ''t3_abc'' \<and> row_post_name ?r2 = lit ''t3_abc''
       \<and> row_post_name ?r3 = lit ''t3_abc''
       \<and> parse_dt cpython (row_snapshot_utc ?r1) = Some (Aware 1704067200000000)
       \<and> parse_dt cpython (row_snapshot_utc ?r2) = Some (Aware 1704153600000000)
       \<and> parse_dt cpython (row_snapshot_utc ?r3) = Some (Aware 1704240000000000)
       \<and> (1704067200000000::int) < 1704153600000000
       \<and> (1704153600000000::int) < 1704240000000000"
    by (simp add: example_row_simps cpython_times)
  from load_series_comparable [of cpython "[?r2, ?r1, ?r3]"]
  have "\<forall>k r1 r2 r3 t1 t2 t3.
         [?r2, ?r1, ?r3] = [r2, r1, r3]
       \<and> row_post_name r1 = k \<and> row_post_name r2 = k \<and> row_post_name r3 = k
       \<and> parse_dt cpython (row_snapshot_utc r1) = Some (Aware t1)
       \<and> parse_dt cpython (row_snapshot_utc r2) = Some (Aware t2)
       \<and> parse_dt cpython (row_snapshot_utc r3) = Some (Aware t3)
       \<and> t1 < t2 \<and> t2 < t3 \<longrightarrow>
         load_series cpython [?r2, ?r1, ?r3] =
           Inr [(k, [(Aware t1, safe_int cpython (PStr (row_num_comments r1)) 0, r1),
                     (Aware t2, safe_int cpython (PStr (row_num_comments r2)) 0, r2),
                     (Aware t3, safe_int cpython (PStr (row_num_comments r3)) 0, r3)])]"
    by (rule conjunct2)
  from this [rule_format, OF hyp] show ?thesis
    by (simp add: example_row_simps safe_int_empty)
qed

text \<open>
  Claim C5. For every history log the aggregator is to group the rows by \<^verbatim>\<open>post_name\<close>,
  drop the rows whose snapshot time cannot be parsed and sort each group ascending by
  snapshot time. \<^verbatim>\<open>parse_dt\<close> is written for times in \<^verbatim>\<open>isoformat\<close> with a timezone and
  returns \<^verbatim>\<open>None\<close> for what \<^verbatim>\<open>fromisoformat\<close> rejects, but a time without an offset
  parses too and its row is kept. On \<open>mixed_log\<close>, two rows of the post \<^verbatim>\<open>t3_abc\<close> with the
  times \<^verbatim>\<open>2024-01-01T00:00:00\<close> and \<^verbatim>\<open>2024-01-02T00:00:00+00:00\<close>, the sort compares a naive
  with an aware \<^verbatim>\<open>datetime\<close> and raises \<^verbatim>\<open>TypeError\<close>: no series is returned and
  \<^verbatim>\<open>make_plots\<close> ends with the exception.
\<close>

theorem load_series_mixed_offsets:
  "load_series cpython mixed_log = Inl TypeError
   \<and> make_plots cpython (Some mixed_log) = Inl TypeError"
proof -
  have "by_post cpython mixed_log =
      [(lit ''t3_abc'',
        [(Naive 1704067200000000, 0, example_row ''2024-01-01T00:00:00'' ''t3_abc'' ''1''),
         (Aware 1704153600000000, 0, example_row ''2024-01-02T00:00:00+00:00'' ''t3_abc'' ''1'')])]"
    by (simp add: by_post_def by_post_step_def mixed_log_def example_row_simps cpython_times
        safe_int_empty)
  then have "load_series cpython mixed_log = Inl TypeError"
    by (simp add: load_series_def sort_series_def comparable_def is_aware_def)
  then show ?thesis by (simp add: make_plots_def)
qed

subsection \<open>The two partitions\<close>

lemma is_episode_nonempty:
  "s \<noteq> [] \<Longrightarrow> is_episode s = Inr (point_flag (hd s) = lit ''1'')"
  by (cases s) (auto simp: is_episode_def point_flag_def)

lemma select_series_nonempty:
  "(\<forall>(k, s)\<in>set g. s \<noteq> []) \<Longrightarrow>
   select_series wanted g
     = Inr (filter (\<lambda>(k, s). (point_flag (hd s) = lit ''1'') = wanted) g)"
proof (induction g)
  case Nil
  then show ?case by simp
next
  case (Cons a g)
  obtain k s where a: "a = (k, s)" by (cases a)
  with Cons.prems have "s \<noteq> []" by simp
  moreover from Cons have "select_series wanted g
     = Inr (filter (\<lambda>(k, s). (point_flag (hd s) = lit ''1'') = wanted) g)"
    by simp
  ultimately show ?case
    by (simp add: a is_episode_nonempty)
qed

lemma sorted_groups_member:
  "(k, s) \<in> set (map (\<lambda>(k, s). (k, sort_key point_time s)) (by_post R rows)) \<longleftrightarrow>
     points_of R k rows \<noteq> [] \<and> s = sort_key point_time (points_of R k rows)"
proof
  assume "(k, s) \<in> set (map (\<lambda>(k, s). (k, sort_key point_time s)) (by_post R rows))"
  then obtain x where x: "x \<in> set (by_post R rows)"
    and e: "(k, s) = (case x of (k, s) \<Rightarrow> (k, sort_key point_time s))"
    by auto
  obtain k' u where ku: "x = (k', u)" by (cases x)
  with e have "k' = k" "s = sort_key point_time u" by simp_all
  with x ku show "points_of R k rows \<noteq> [] \<and> s = sort_key point_time (points_of R k rows)"
    by (auto simp: by_post_member)
next
  assume a: "points_of R k rows \<noteq> [] \<and> s = sort_key point_time (points_of R k rows)"
  then have "(k, points_of R k rows) \<in> set (by_post R rows)"
    by (simp add: by_post_member)
  then have "(case (k, points_of R k rows) of (k, s) \<Rightarrow> (k, sort_key point_time s))
      \<in> set (map (\<lambda>(k, s). (k, sort_key point_time s)) (by_post R rows))"
    by (simp only: set_map) (rule imageI)
  with a show "(k, s) \<in> set (map (\<lambda>(k, s). (k, sort_key point_time s)) (by_post R rows))"
    by simp
qed

lemma sort_key_Nil_iff: "sort_key f xs = [] \<longleftrightarrow> xs = []"
  using length_sort [of f xs] by (metis length_0_conv)

lemma earliest_point_Nil: "earliest_point [] = None"
  by (simp add: earliest_point_def)

lemma partition_member:
  assumes "g = map (\<lambda>(k, s). (k, sort_key point_time s)) (by_post R rows)"
  shows "k \<in> fst ` set (filter (\<lambda>(k, s). (point_flag (hd s) = lit ''1'') = wanted) g) \<longleftrightarrow>
     (\<exists>p. earliest_point (points_of R k rows) = Some p \<and> (point_flag p = lit ''1'') = wanted)"
proof (cases "points_of R k rows = []")
  case True
  then have "\<And>s. (k, s) \<notin> set g"
    unfolding assms by (simp only: sorted_groups_member) simp
  then have "k \<notin> fst ` set (filter (\<lambda>(k, s). (point_flag (hd s) = lit ''1'') = wanted) g)"
    by auto
  with True show ?thesis by (simp add: earliest_point_Nil)
next
  case False
  let ?s = "sort_key point_time (points_of R k rows)"
  have mem: "\<And>s. (k, s) \<in> set g \<longleftrightarrow> s = ?s"
    unfolding assms using False by (simp only: sorted_groups_member) simp
  have e: "earliest_point (points_of R k rows) = Some (hd ?s)"
    using False by (rule earliest_point_sorted)
  have "k \<in> fst ` set (filter (\<lambda>(k, s). (point_flag (hd s) = lit ''1'') = wanted) g) \<longleftrightarrow>
        (\<exists>s. (k, s) \<in> set g \<and> (point_flag (hd s) = lit ''1'') = wanted)"
    by (auto simp: image_iff)
  also have "\<dots> \<longleftrightarrow> (point_flag (hd ?s) = lit ''1'') = wanted"
    by (simp add: mem)
  finally show ?thesis by (simp add: e)
qed

text \<open>
  Claim C4, as amended. Whenever the series load (the sort does not raise), a post is
  in the episode plot exactly when the \<^verbatim>\<open>is_episode\<close> flag of the earliest of its rows
  with a parsable time is \<^verbatim>\<open>"1"\<close>, and in the non-episode plot exactly when that flag is
  anything else: the decision reads one row, the first of the series after the sort by
  time (among rows with the same earliest time, the first in the file), and is not
  re-evaluated per row. A post with no row left after the unparsable times are dropped
  is in neither plot.
\<close>

theorem partition_spec:
  "load_series R rows = Inr g \<longrightarrow>
     (\<exists>eps others.
        select_series True g = Inr eps
      \<and> select_series False g = Inr others
      \<and> make_plots R (Some rows)
          = Inr \<lparr> episode_plot = saved (map episode_line eps),
                  non_episode_plot = saved (map (non_episode_line R) others) \<rparr>
      \<and> (\<forall>k. k \<in> fst ` set eps \<longleftrightarrow>
              (\<exists>p. earliest_point (points_of R k rows) = Some p \<and> point_flag p = lit ''1''))
      \<and> (\<forall>k. k \<in> fst ` set others \<longleftrightarrow>
              (\<exists>p. earliest_point (points_of R k rows) = Some p \<and> point_flag p \<noteq> lit ''1''))
      \<and> (\<forall>k. points_of R k rows = [] \<longrightarrow> k \<notin> fst ` set eps \<and> k \<notin> fst ` set others))"
proof
  assume ld: "load_series R rows = Inr g"
  then have g: "g = map (\<lambda>(k, s). (k, sort_key point_time s)) (by_post R rows)"
    by (simp add: load_series_Inr)
  have ne: "\<forall>(k, s)\<in>set g. s \<noteq> []"
    unfolding g by (auto simp: by_post_member sort_key_Nil_iff)
  let ?eps = "filter (\<lambda>(k, s). (point_flag (hd s) = lit ''1'') = True) g"
  let ?others = "filter (\<lambda>(k, s). (point_flag (hd s) = lit ''1'') = False) g"
  have se: "select_series True g = Inr ?eps"
    using ne by (rule select_series_nonempty)
  have so: "select_series False g = Inr ?others"
    using ne by (rule select_series_nonempty)
  have mp: "make_plots R (Some rows)
          = Inr \<lparr> episode_plot = saved (map episode_line ?eps),
                  non_episode_plot = saved (map (non_episode_line R) ?others) \<rparr>"
    by (simp only: make_plots_def ld se so option.case sum.case)
  have pe: "\<forall>k. k \<in> fst ` set ?eps \<longleftrightarrow>
      (\<exists>p. earliest_point (points_of R k rows) = Some p \<and> point_flag p = lit ''1'')"
    using partition_member [OF g, of _ True] by simp
  have po: "\<forall>k. k \<in> fst ` set ?others \<longleftrightarrow>
      (\<exists>p. earliest_point (points_of R k rows) = Some p \<and> point_flag p \<noteq> lit ''1'')"
    using partition_member [OF g, of _ False] by simp
  have pn: "\<forall>k. points_of R k rows = [] \<longrightarrow> k \<notin> fst ` set ?eps \<and> k \<notin> fst ` set ?others"
    using pe po by (simp add: earliest_point_Nil)
  from se so mp pe po pn
  show "\<exists>eps others.
        select_series True g = Inr eps
      \<and> select_series False g = Inr others
      \<and> make_plots R (Some rows)
          = Inr \<lparr> episode_plot = saved (map episode_line eps),
                  non_episode_plot = saved (map (non_episode_line R) others) \<rparr>
      \<and> (\<forall>k. k \<in> fst ` set eps \<longleftrightarrow>
              (\<exists>p. earliest_point (points_of R k rows) = Some p \<and> point_flag p = lit ''1''))
      \<and> (\<forall>k. k \<in> fst ` set others \<longleftrightarrow>
              (\<exists>p. earliest_point (points_of R k rows) = Some p \<and> point_flag p \<noteq> lit ''1''))
      \<and> (\<forall>k. points_of R k rows = [] \<longrightarrow> k \<notin> fst ` set eps \<and> k \<notin> fst ` set others)"
    by blast
qed

lemma flicker_groups:
  "load_series cpython flicker_log =
     Inr [(lit ''t3_abc'',
           [(Aware 1704067200000000, 0, example_row ''2024-01-01T00:00:00+00:00'' ''t3_abc'' ''1''),
            (Aware 1704153600000000, 0, example_row ''2024-01-02T00:00:00+00:00'' ''t3_abc'' ''0'')])]"
proof -
  have "by_post cpython flicker_log =
      [(lit ''t3_abc'',
        [(Aware 1704153600000000, 0, example_row ''2024-01-02T00:00:00+00:00'' ''t3_abc'' ''0''),
         (Aware 1704067200000000, 0, example_row ''2024-01-01T00:00:00+00:00'' ''t3_abc'' ''1'')])]"
    by (simp add: by_post_def by_post_step_def flicker_log_def example_row_simps cpython_times
        safe_int_empty)
  then show ?thesis
    by (simp add: load_series_def sort_series_def comparable_def is_aware_def point_time_def
        instant_def)
qed

text \<open>
  The decision is not made from the first row in file order: in \<open>flicker_log\<close> the first
  row of \<^verbatim>\<open>t3_abc\<close> in the file has the flag \<^verbatim>\<open>"0"\<close>, the earlier snapshot comes second and
  has the flag \<^verbatim>\<open>"1"\<close>, and the post is plotted as an episode.
\<close>

theorem partition_first_row_counterexample:
  "map row_post_name flicker_log = [lit ''t3_abc'', lit ''t3_abc'']
   \<and> map row_is_episode flicker_log = [lit ''0'', lit ''1'']
   \<and> load_series cpython flicker_log =
       Inr [(lit ''t3_abc'',
             [(Aware 1704067200000000, 0, example_row ''2024-01-01T00:00:00+00:00'' ''t3_abc'' ''1''),
              (Aware 1704153600000000, 0, example_row ''2024-01-02T00:00:00+00:00'' ''t3_abc'' ''0'')])]
   \<and> select_series True
        [(lit ''t3_abc'',
          [(Aware 1704067200000000, 0, example_row ''2024-01-01T00:00:00+00:00'' ''t3_abc'' ''1''),
           (Aware 1704153600000000, 0, example_row ''2024-01-02T00:00:00+00:00'' ''t3_abc'' ''0'')])]
      = Inr [(lit ''t3_abc'',
             [(Aware 1704067200000000, 0, example_row ''2024-01-01T00:00:00+00:00'' ''t3_abc'' ''1''),
              (Aware 1704153600000000, 0, example_row ''2024-01-02T00:00:00+00:00'' ''t3_abc'' ''0'')])]
   \<and> select_series False
        [(lit ''t3_abc'',
          [(Aware 1704067200000000, 0, example_row ''2024-01-01T00:00:00+00:00'' ''t3_abc'' ''1''),
           (Aware 1704153600000000, 0, example_row ''2024-01-02T00:00:00+00:00'' ''t3_abc'' ''0'')])]
      = Inr []"
  by (simp add: flicker_groups is_episode_def example_row_simps)
    (simp add: flicker_log_def example_row_simps)

theorem partition_spec_witness:
  "\<exists>eps others.
     select_series True
        [(lit ''t3_abc'',
          [(Aware 1704067200000000, 0, example_row ''2024-01-01T00:00:00+00:00'' ''t3_abc'' ''1''),
           (Aware 1704153600000000, 0, example_row ''2024-01-02T00:00:00+00:00'' ''t3_abc'' ''0'')])]
       = Inr eps
   \<and> make_plots cpython (Some flicker_log)
       = Inr \<lparr> episode_plot = saved (map episode_line eps),
               non_episode_plot = saved (map (non_episode_line cpython) others) \<rparr>
   \<and> lit ''t3_abc'' \<in> fst ` set eps
   \<and> lit ''t3_abc'' \<notin> fst ` set others
   \<and> lit ''t3_xyz'' \<notin> fst ` set eps"
proof -
  define g where "g = [(lit ''t3_abc'',
          [(Aware 1704067200000000, 0::int, example_row ''2024-01-01T00:00:00+00:00'' ''t3_abc'' ''1''),
           (Aware 1704153600000000, 0, example_row ''2024-01-02T00:00:00+00:00'' ''t3_abc'' ''0'')])]"
  define pB where "pB = (Aware 1704067200000000, 0::int, example_row ''2024-01-01T00:00:00+00:00'' ''t3_abc'' ''1'')"
  have ld: "load_series cpython flicker_log = Inr g"
    unfolding g_def by (rule flicker_groups)
  have e: "earliest_point (points_of cpython (lit ''t3_abc'') flicker_log) = Some pB"
    unfolding pB_def
    by (simp add: points_of_Cons points_of_Nil flicker_log_def example_row_simps cpython_times
        safe_int_empty earliest_point_def point_time_def instant_def)
  have f: "point_flag pB = lit ''1''"
    by (simp add: pB_def point_flag_def example_row_simps)
  have ne: "lit ''t3_abc'' \<noteq> lit ''t3_xyz''"
    by (simp add: lit_def)
  have x: "points_of cpython (lit ''t3_xyz'') flicker_log = []"
    by (simp add: points_of_Cons points_of_Nil flicker_log_def example_row_simps cpython_times ne)
  from partition_spec [of cpython flicker_log g, THEN mp, OF ld]
  obtain eps others where
    r1: "select_series True g = Inr eps"
    and r2: "make_plots cpython (Some flicker_log)
         = Inr \<lparr> episode_plot = saved (map episode_line eps),
                 non_episode_plot = saved (map (non_episode_line cpython) others) \<rparr>"
    and r3: "\<forall>k. k \<in> fst ` set eps \<longleftrightarrow>
         (\<exists>p. earliest_point (points_of cpython k flicker_log) = Some p \<and> point_flag p = lit ''1'')"
    and r4: "\<forall>k. k \<in> fst ` set others \<longleftrightarrow>
         (\<exists>p. earliest_point (points_of cpython k flicker_log) = Some p \<and> point_flag p \<noteq> lit ''1'')"
    and r5: "\<forall>k. points_of cpython k flicker_log = [] \<longrightarrow> k \<notin> fst ` set eps \<and> k \<notin> fst ` set others"
    by (elim exE conjE) (rule that)
  from r3 e f have m1: "lit ''t3_abc'' \<in> fst ` set eps" by blast
  from r4 e f have m2: "lit ''t3_abc'' \<notin> fst ` set others" by (metis option.inject)
  from r5 x have m3: "lit ''t3_xyz'' \<notin> fst ` set eps" by blast
  from r1 r2 m1 m2 m3 show ?thesis
    unfolding g_def by (intro exI conjI)
qed

end
